theory Spec2Isabelle
  imports Main "HOL-Library.Sublist"
begin

section \<open>The pager \<^verbatim>\<open>mypager.c\<close>: data model\<close>

text \<open>
  The program keeps its state in globals: the file descriptor \<^verbatim>\<open>fd\<close>, the array
  \<^verbatim>\<open>buffer[BUFFER_SIZE]\<close>, the two cursors \<^verbatim>\<open>buffer_start\<close> and \<^verbatim>\<open>buffer_end\<close>
  (inclusive indices, both \<^verbatim>\<open>int\<close>), the flag \<^verbatim>\<open>buffer_has_data\<close> and the counter
  \<^verbatim>\<open>current_page_size\<close>. They are the fields of one record, passed to every function and
  returned updated; what the program writes to standard output is collected in the field
  \<open>stdout\<close>.

  The three macros \<^verbatim>\<open>PAGE_SIZE\<close>, \<^verbatim>\<open>LINE_WIDTH\<close> and \<^verbatim>\<open>BUFFER_SIZE\<close> are parameters
  of the functions (\<open>psz\<close>, \<open>lw\<close>, \<open>bsz\<close>), so that the small dimensions of the
  specification's example can be run; the constants below are the values the source gives them.
\<close>

definition PAGE_SIZE :: nat where
  "PAGE_SIZE = 20"

definition LINE_WIDTH :: int where
  "LINE_WIDTH = 80"

definition BUFFER_SIZE :: nat where
  "BUFFER_SIZE = nat (LINE_WIDTH + 1) * PAGE_SIZE"

text \<open>
  The byte source behind \<^verbatim>\<open>fd\<close>: the bytes of the file not yet read, and an optional
  countdown to a device error: \<open>Some k\<close> lets \<open>k\<close> more calls of \<^verbatim>\<open>read\<close> succeed, and
  every later call fails (\<open>Some 0\<close> is a source that fails for good, \<open>None\<close> one that never
  fails). \<^verbatim>\<open>read(fd, p, n)\<close> on a regular file delivers the next \<open>min n (remaining)\<close>
  bytes and returns their number, \<open>0\<close> at the end of the file and \<open>-1\<close> on an error.
\<close>

record byte_source =
  pending :: "char list"
  fail_at :: "nat option"

definition read_fd :: "byte_source \<Rightarrow> nat \<Rightarrow> int \<times> char list \<times> byte_source" where
  "read_fd f n =
     (if fail_at f = Some 0 then (- 1, [], f)
      else (int (length (take n (pending f))), take n (pending f),
            f\<lparr>pending := drop n (pending f),
              fail_at := map_option (\<lambda>k. k - 1) (fail_at f)\<rparr>))"

record pager =
  fd :: byte_source
  buffer :: "char list"
  buffer_start :: int
  buffer_end :: int
  buffer_has_data :: int
  current_page_size :: int
  stdout :: "char list"

text \<open>The three bytes at which the \<^verbatim>\<open>switch\<close> of \<^verbatim>\<open>fetch_next_word\<close> ends a word.\<close>

definition LF :: char where
  "LF = CHR 0x0A"

definition TAB :: char where
  "TAB = CHR 0x09"

definition is_delimiter :: "char \<Rightarrow> bool" where
  "is_delimiter c = (c = CHR '' '' \<or> c = LF \<or> c = TAB)"

text \<open>
  \<^verbatim>\<open>memcpy(b + dst, b + src, n)\<close> inside one array. The source calls it with ranges that
  may overlap (\<open>dst = 0\<close>, \<open>src = buffer_start\<close>), which ISO C leaves undefined; the model
  reads the \<open>n\<close> source bytes before it writes them, which is what a forward copy towards a
  lower address gives.
\<close>

definition memcpy_within :: "char list \<Rightarrow> nat \<Rightarrow> nat \<Rightarrow> nat \<Rightarrow> char list" where
  "memcpy_within b dst src n = take dst b @ take n (drop src b) @ drop (dst + n) b"

text \<open>The bytes \<^verbatim>\<open>read\<close> delivered, stored at offset \<open>off\<close> of the array.\<close>

definition store_at :: "char list \<Rightarrow> nat \<Rightarrow> char list \<Rightarrow> char list" where
  "store_at b off bytes = take off b @ bytes @ drop (off + length bytes) b"

section \<open>The operations\<close>

subsection \<open>\<^verbatim>\<open>refill_buffer\<close>\<close>

definition refill_buffer :: "nat \<Rightarrow> int \<Rightarrow> pager \<Rightarrow> int \<times> pager" where
  "refill_buffer bsz start s =
     (let s1 = s\<lparr>buffer_start := 0, buffer_end := start - 1\<rparr>;
          (number_of_bytes, bytes, f') = read_fd (fd s1) (nat (int bsz - start));
          s2 = s1\<lparr>fd := f', buffer := store_at (buffer s1) (nat start) bytes\<rparr>
      in if number_of_bytes > 0
         then (number_of_bytes,
               s2\<lparr>buffer_has_data := 1, buffer_end := buffer_end s2 + number_of_bytes\<rparr>)
         else (number_of_bytes, s2\<lparr>buffer_has_data := 0\<rparr>))"

subsection \<open>\<^verbatim>\<open>fetch_next_word\<close>\<close>

text \<open>
  The \<^verbatim>\<open>if\<close> block at the head of the loop body: when the scan has reached the end of
  the window, the bytes scanned so far are moved to the front of the array and the rest of
  the array is refilled. \<open>Inl (r, s)\<close> is an early \<^verbatim>\<open>return r\<close>; \<open>Inr (start, brk, s)\<close>
  goes on with the new value of the local \<^verbatim>\<open>start\<close>, and \<open>brk\<close> says that the
  \<^verbatim>\<open>break\<close> of the final word was taken (with \<^verbatim>\<open>more = 0\<close>).
\<close>

definition fnw_fill ::
  "nat \<Rightarrow> int \<Rightarrow> int \<Rightarrow> pager \<Rightarrow> (int \<times> pager) + (int \<times> bool \<times> pager)" where
  "fnw_fill bsz start count s =
     (if start + count > buffer_end s then
        (let s1 = (if count \<noteq> 0
                   then s\<lparr>buffer := memcpy_within (buffer s) 0 (nat (buffer_start s)) (nat count)\<rparr>
                   else s);
             (refill_return, s2) = refill_buffer bsz count s1;
             start' = buffer_start s2
         in if refill_return = 0 then
              (if count \<noteq> 0 then Inr (start', True, s2) else Inl (0, s2))
            else if refill_return = - 1 then Inl (- 1, s2)
            else Inr (start', False, s2))
      else Inr (start, False, s))"

text \<open>
  The \<^verbatim>\<open>while (more && count < max_size + 1)\<close> loop over the locals \<^verbatim>\<open>start\<close>,
  \<^verbatim>\<open>count\<close> and \<^verbatim>\<open>more\<close>. It ends with \<open>Inl\<close> for a \<^verbatim>\<open>return\<close> from inside the
  loop and with \<open>Inr\<close> of the locals when the loop is left.
\<close>

function fnw_loop ::
  "nat \<Rightarrow> int \<Rightarrow> int \<Rightarrow> int \<Rightarrow> bool \<Rightarrow> pager \<Rightarrow> (int \<times> pager) + (int \<times> int \<times> bool \<times> pager)" where
  "fnw_loop bsz max_size start count more' s =
     (if more' \<and> count < max_size + 1 then
        (case fnw_fill bsz start count s of
           Inl r \<Rightarrow> Inl r
         | Inr (start', brk, s') \<Rightarrow>
             if brk then Inr (start', count, False, s')
             else fnw_loop bsz max_size start' (count + 1)
                    (if is_delimiter (buffer s' ! nat (start' + count)) then False else more') s')
      else Inr (start, count, more', s))"
  by pat_completeness auto
termination
  by (relation "measure (\<lambda>(bsz, max_size, start, count, more', s). nat (max_size + 1 - count))") auto

text \<open>
  The result is the returned \<^verbatim>\<open>int\<close>, the bytes copied into the caller's array
  \<^verbatim>\<open>word\<close> (none when the function returns without copying) and the state.
\<close>

definition fetch_next_word :: "nat \<Rightarrow> int \<Rightarrow> pager \<Rightarrow> int \<times> char list \<times> pager" where
  "fetch_next_word bsz max_size s =
     (case fnw_loop bsz max_size (buffer_start s) 0 True s of
        Inl (r, s') \<Rightarrow> (r, [], s')
      | Inr (start, count, more', s') \<Rightarrow>
          if more' then (- 2, [], s')
          else (count, take (nat count) (drop (nat start) (buffer s')),
                s'\<lparr>buffer_start := buffer_start s' + count\<rparr>))"

subsection \<open>\<^verbatim>\<open>fetch_next_line\<close>\<close>

text \<open>
  The arrays \<^verbatim>\<open>char word[LINE_WIDTH]\<close> of \<^verbatim>\<open>fetch_next_line\<close> and
  \<^verbatim>\<open>char line[LINE_WIDTH]\<close> of \<^verbatim>\<open>display_page\<close> have \<open>lw\<close> bytes each. A copy that
  ends past the last byte of its array, and a read past it, has no defined behaviour in C:
  the function then ends with the fault \<open>Overrun\<close> and gives no value, no bytes and no
  state.
\<close>

datatype fault = Overrun

text \<open>
  The \<^verbatim>\<open>while (more)\<close> loop over \<^verbatim>\<open>count\<close> and the array \<^verbatim>\<open>line\<close>, of which the
  model keeps the first \<^verbatim>\<open>count\<close> bytes. \<^verbatim>\<open>fetch_next_word\<close> has copied
  \<^verbatim>\<open>number_of_chars\<close> bytes into \<^verbatim>\<open>word\<close> (first test), and \<^verbatim>\<open>memcpy\<close> copies them
  to \<^verbatim>\<open>line + count\<close> (second test).
\<close>

function fnl_loop ::
  "nat \<Rightarrow> int \<Rightarrow> int \<Rightarrow> char list \<Rightarrow> pager \<Rightarrow> fault + int \<times> char list \<times> pager" where
  "fnl_loop bsz lw count line s =
     (case fetch_next_word bsz (lw - count) s of
        (number_of_chars, word, s') \<Rightarrow>
          if number_of_chars > 0 then
            (if number_of_chars > lw then Inl Overrun
             else if count + number_of_chars > lw then Inl Overrun
             else if word ! nat (number_of_chars - 1) = LF \<or> count + number_of_chars \<ge> lw
             then Inr (count + number_of_chars, line @ word, s')
             else fnl_loop bsz lw (count + number_of_chars) (line @ word) s')
          else if number_of_chars = 0 \<or> number_of_chars = - 2 then Inr (count, line, s')
          else Inr (- 1, line, s'))"
  by pat_completeness auto
termination
  by (relation "measure (\<lambda>(bsz, lw, count, line, s). nat (lw - count))") auto

definition fetch_next_line :: "nat \<Rightarrow> int \<Rightarrow> pager \<Rightarrow> fault + int \<times> char list \<times> pager" where
  "fetch_next_line bsz lw s = fnl_loop bsz lw 0 [] s"

subsection \<open>\<^verbatim>\<open>display_page\<close>\<close>

definition eof_sentinel :: "char list" where
  "eof_sentinel = ''=== EOF ==='' @ [LF]"

definition error_sentinel :: "char list" where
  "error_sentinel = ''(error reading file)'' @ [LF]"

definition put :: "char list \<Rightarrow> pager \<Rightarrow> pager" where
  "put bytes s = s\<lparr>stdout := stdout s @ bytes\<rparr>"

text \<open>
  The \<^verbatim>\<open>for\<close> loop; the first argument counts the iterations that are left
  (\<^verbatim>\<open>PAGE_SIZE - number_of_lines\<close>). \<^verbatim>\<open>fwrite\<close> reads \<^verbatim>\<open>number_of_chars\<close> bytes of
  \<^verbatim>\<open>line\<close>, and the test for the line-feed reads \<^verbatim>\<open>line[number_of_chars-1]\<close>.
\<close>

fun dp_loop :: "nat \<Rightarrow> nat \<Rightarrow> int \<Rightarrow> pager \<Rightarrow> fault + int \<times> pager" where
  "dp_loop 0 bsz lw s = Inr (1, s)"
| "dp_loop (Suc k) bsz lw s =
     (case fetch_next_line bsz lw s of
        Inl e \<Rightarrow> Inl e
      | Inr (number_of_chars, line, s1) \<Rightarrow>
          if number_of_chars > 0 then
            (if number_of_chars > lw then Inl Overrun
             else
               (let s2 = put (take (nat number_of_chars) line) s1;
                    s3 = s2\<lparr>current_page_size := current_page_size s2 + number_of_chars\<rparr>;
                    s4 = (if line ! nat (number_of_chars - 1) \<noteq> LF then put [LF] s3 else s3)
                in dp_loop k bsz lw s4))
          else if number_of_chars = 0 then Inr (0, put eof_sentinel s1)
          else Inr (0, put error_sentinel s1))"

definition display_page :: "nat \<Rightarrow> int \<Rightarrow> nat \<Rightarrow> pager \<Rightarrow> fault + int \<times> pager" where
  "display_page bsz lw psz s = dp_loop psz bsz lw (s\<lparr>current_page_size := 0\<rparr>)"

subsection \<open>\<^verbatim>\<open>main\<close>\<close>

text \<open>
  The globals of a C program start at zero. \<^verbatim>\<open>main\<close> prints a banner with the file's
  name, opens the file, refills the buffer once and runs the command loop. The model starts
  with the file open: the check of \<^verbatim>\<open>argc\<close>, an \<^verbatim>\<open>open\<close> that fails and the mode of the
  terminal are left out.
\<close>

definition initial_state :: "nat \<Rightarrow> byte_source \<Rightarrow> pager" where
  "initial_state bsz f =
     \<lparr>fd = f, buffer = replicate bsz (CHR 0x00), buffer_start = 0, buffer_end = 0,
      buffer_has_data = 0, current_page_size = 0, stdout = []\<rparr>"

text \<open>
  The \<^verbatim>\<open>switch (command)\<close>: \<^verbatim>\<open>f\<close> calls \<^verbatim>\<open>display_page\<close> and drops the status it
  returns, every other command does nothing.
\<close>

definition do_command :: "nat \<Rightarrow> int \<Rightarrow> nat \<Rightarrow> char \<Rightarrow> pager \<Rightarrow> fault + pager" where
  "do_command bsz lw psz command s =
     (if command = CHR ''f''
      then (case display_page bsz lw psz s of Inl e \<Rightarrow> Inl e | Inr (status, s1) \<Rightarrow> Inr s1)
      else Inr s)"

text \<open>
  The \<^verbatim>\<open>do ... while (command != 'q')\<close> loop. The keystrokes \<^verbatim>\<open>getchar\<close> will deliver
  are a list; the result says whether the loop was left (a \<^verbatim>\<open>q\<close> was read) or whether
  the program has used up the keystrokes and waits for the next one.
\<close>

fun command_loop ::
  "nat \<Rightarrow> int \<Rightarrow> nat \<Rightarrow> char \<Rightarrow> char list \<Rightarrow> pager \<Rightarrow> fault + bool \<times> pager" where
  "command_loop bsz lw psz command [] s =
     (case do_command bsz lw psz command s of
        Inl e \<Rightarrow> Inl e
      | Inr s1 \<Rightarrow> Inr (False, s1))"
| "command_loop bsz lw psz command (k # keys) s =
     (case do_command bsz lw psz command s of
        Inl e \<Rightarrow> Inl e
      | Inr s1 \<Rightarrow> if k \<noteq> CHR ''q'' then command_loop bsz lw psz k keys s1 else Inr (True, s1))"

definition pager_main ::
  "nat \<Rightarrow> int \<Rightarrow> nat \<Rightarrow> char list \<Rightarrow> byte_source \<Rightarrow> char list \<Rightarrow> fault + bool \<times> pager" where
  "pager_main bsz lw psz name f keys =
     (let s0 = put (''Opening file '' @ name @ ''...'' @ [LF]) (initial_state bsz f);
          s1 = snd (refill_buffer bsz 0 s0)
      in command_loop bsz lw psz (CHR ''f'') keys s1)"

text \<open>The program with the values of its macros.\<close>

definition mypager :: "char list \<Rightarrow> byte_source \<Rightarrow> char list \<Rightarrow> fault + bool \<times> pager" where
  "mypager name f keys = pager_main BUFFER_SIZE LINE_WIDTH PAGE_SIZE name f keys"

section \<open>Notions for the properties\<close>

declare fnw_loop.simps [simp del]
declare fnl_loop.simps [simp del]

text \<open>
  The window invariant of the buffer: the array has its \<open>bsz\<close> bytes, and
  \<open>0 \<le> start \<le> end + 1 \<le> bsz\<close>.
\<close>

definition window_inv :: "nat \<Rightarrow> pager \<Rightarrow> bool" where
  "window_inv bsz s =
     (length (buffer s) = bsz \<and> 0 \<le> buffer_start s \<and> buffer_start s \<le> buffer_end s + 1 \<and>
      buffer_end s + 1 \<le> int bsz)"

text \<open>The bytes of the window, and the bytes not yet consumed: the window, then the rest of the file.\<close>

definition window :: "pager \<Rightarrow> char list" where
  "window s = take (nat (buffer_end s + 1 - buffer_start s)) (drop (nat (buffer_start s)) (buffer s))"

definition unconsumed :: "pager \<Rightarrow> char list" where
  "unconsumed s = window s @ pending (fd s)"

text \<open>The input of the specification's example.\<close>

definition example_source :: byte_source where
  "example_source = \<lparr>pending = ''abcdefgh ij'' @ [LF] @ ''klmno'', fail_at = None\<rparr>"

text \<open>The state after the scanned bytes were moved to the front and the array was refilled.\<close>

definition compacted :: "pager \<Rightarrow> int \<Rightarrow> int \<Rightarrow> char list \<Rightarrow> byte_source \<Rightarrow> pager" where
  "compacted s count n bytes f' =
     s\<lparr>buffer := store_at (if count \<noteq> 0
                            then memcpy_within (buffer s) 0 (nat (buffer_start s)) (nat count)
                            else buffer s) (nat count) bytes,
       buffer_start := 0, buffer_end := count - 1 + int (length bytes), fd := f',
       buffer_has_data := (if n > 0 then 1 else 0)\<rparr>"

text \<open>
  What every step of a scan keeps: the invariant, the bytes not yet consumed, the bytes of the
  old window at the front of the new one, a window start that has not advanced, the output,
  a byte source that has not begun to fail and, with a source that fails, the window.
\<close>

definition preserved :: "nat \<Rightarrow> pager \<Rightarrow> pager \<Rightarrow> bool" where
  "preserved bsz s s' =
     (window_inv bsz s' \<and> unconsumed s' = unconsumed s \<and> prefix (window s) (window s') \<and>
      buffer_start s' \<le> buffer_start s \<and> stdout s' = stdout s \<and>
      current_page_size s' = current_page_size s \<and>
      (fail_at (fd s) = None \<longrightarrow> fail_at (fd s') = None) \<and>
      (fail_at (fd s) = Some 0 \<longrightarrow> fail_at (fd s') = Some 0 \<and> window s' = window s))"

text \<open>
  The reads of the array through one call of \<^verbatim>\<open>fetch_next_word\<close>, each with the
  window \<open>(buffer_start, buffer_end)\<close> of the moment of the read: the index of every byte
  \<^verbatim>\<open>buffer[start+count]\<close> the \<^verbatim>\<open>switch\<close> looks at, and the first and the last index of
  every range a \<^verbatim>\<open>memcpy\<close> reads (the compaction, and the copy into \<^verbatim>\<open>word\<close>). The
  recursion of \<open>fnw_reads\<close> is that of \<open>fnw_loop\<close>.
\<close>

definition copy_reads :: "int \<Rightarrow> int \<Rightarrow> pager \<Rightarrow> (int \<times> int \<times> int) list" where
  "copy_reads src n s =
     (if n \<noteq> 0 then [(src, buffer_start s, buffer_end s), (src + n - 1, buffer_start s, buffer_end s)]
      else [])"

function fnw_reads :: "nat \<Rightarrow> int \<Rightarrow> int \<Rightarrow> int \<Rightarrow> bool \<Rightarrow> pager \<Rightarrow> (int \<times> int \<times> int) list" where
  "fnw_reads bsz max_size start count more' s =
     (if more' \<and> count < max_size + 1 then
        (if start + count > buffer_end s then copy_reads (buffer_start s) count s else []) @
        (case fnw_fill bsz start count s of
           Inl r \<Rightarrow> []
         | Inr (start', brk, s') \<Rightarrow>
             if brk then []
             else (start' + count, buffer_start s', buffer_end s') #
                  fnw_reads bsz max_size start' (count + 1)
                    (if is_delimiter (buffer s' ! nat (start' + count)) then False else more') s')
      else [])"
  by pat_completeness auto
termination
  by (relation "measure (\<lambda>(bsz, max_size, start, count, more', s). nat (max_size + 1 - count))") auto

declare fnw_reads.simps [simp del]

definition fetch_next_word_reads :: "nat \<Rightarrow> int \<Rightarrow> pager \<Rightarrow> (int \<times> int \<times> int) list" where
  "fetch_next_word_reads bsz max_size s =
     fnw_reads bsz max_size (buffer_start s) 0 True s @
     (case fnw_loop bsz max_size (buffer_start s) 0 True s of
        Inl r \<Rightarrow> []
      | Inr (start, count, more', s') \<Rightarrow> if more' then [] else copy_reads start count s')"

definition in_window :: "nat \<Rightarrow> int \<times> int \<times> int \<Rightarrow> bool" where
  "in_window bsz = (\<lambda>(i, lo, hi). 0 \<le> lo \<and> lo \<le> i \<and> i \<le> hi \<and> hi < int bsz)"

text \<open>A state whose window ends inside a word: the window holds \<^verbatim>\<open>ab\<close>, the file goes on with \<^verbatim>\<open>cd e\<close>.\<close>

definition boundary_state :: pager where
  "boundary_state = \<lparr>fd = \<lparr>pending = ''cd e'', fail_at = None\<rparr>, buffer = ''x ab'',
     buffer_start = 2, buffer_end = 3, buffer_has_data = 1, current_page_size = 0, stdout = []\<rparr>"

text \<open>
  The bytes a scan can still get: with a source that fails for good the window, otherwise the
  bytes not yet consumed.
\<close>

definition visible :: "pager \<Rightarrow> char list" where
  "visible s = (if fail_at (fd s) = Some 0 then window s else unconsumed s)"

text \<open>
  The same scan, line and page on those bytes alone, with no buffer: what the operations
  compute when the window boundaries play no part. \<open>stream_word_from\<close> looks for the
  first delimiter among the first \<open>max_size + 1\<close> bytes of the stream; \<open>err\<close> says that
  the stream ends with an I/O error and not with the end of the file.
\<close>

function stream_word_from :: "bool \<Rightarrow> int \<Rightarrow> int \<Rightarrow> char list \<Rightarrow> int \<times> char list" where
  "stream_word_from err max_size count xs =
     (if count < max_size + 1 then
        (if int (length xs) \<le> count then
           (if err then (- 1, [])
            else if count \<noteq> 0 then (count, take (nat count) xs) else (0, []))
         else if is_delimiter (xs ! nat count) then (count + 1, take (nat (count + 1)) xs)
         else stream_word_from err max_size (count + 1) xs)
      else (- 2, []))"
  by pat_completeness auto
termination
  by (relation "measure (\<lambda>(err, max_size, count, xs). nat (max_size + 1 - count))") auto

declare stream_word_from.simps [simp del]

definition stream_word :: "bool \<Rightarrow> int \<Rightarrow> char list \<Rightarrow> int \<times> char list" where
  "stream_word err max_size xs = stream_word_from err max_size 0 xs"

function stream_line_from ::
  "bool \<Rightarrow> int \<Rightarrow> int \<Rightarrow> char list \<Rightarrow> char list \<Rightarrow> fault + int \<times> char list \<times> char list" where
  "stream_line_from err lw count line xs =
     (case stream_word err (lw - count) xs of
        (number_of_chars, word) \<Rightarrow>
          if number_of_chars > 0 then
            (if number_of_chars > lw then Inl Overrun
             else if count + number_of_chars > lw then Inl Overrun
             else if word ! nat (number_of_chars - 1) = LF \<or> count + number_of_chars \<ge> lw
             then Inr (count + number_of_chars, line @ word, drop (nat number_of_chars) xs)
             else stream_line_from err lw (count + number_of_chars) (line @ word)
                    (drop (nat number_of_chars) xs))
          else if number_of_chars = 0 \<or> number_of_chars = - 2 then Inr (count, line, xs)
          else Inr (- 1, line, xs))"
  by pat_completeness auto
termination
  by (relation "measure (\<lambda>(err, lw, count, line, xs). nat (lw - count))") auto

declare stream_line_from.simps [simp del]

definition stream_line ::
  "bool \<Rightarrow> int \<Rightarrow> char list \<Rightarrow> fault + int \<times> char list \<times> char list" where
  "stream_line err lw xs = stream_line_from err lw 0 [] xs"

text \<open>A page: the status, the bytes left and the output.\<close>

fun stream_page ::
  "bool \<Rightarrow> nat \<Rightarrow> int \<Rightarrow> char list \<Rightarrow> char list \<Rightarrow> fault + int \<times> char list \<times> char list" where
  "stream_page err 0 lw xs out = Inr (1, xs, out)"
| "stream_page err (Suc k) lw xs out =
     (case stream_line err lw xs of
        Inl e \<Rightarrow> Inl e
      | Inr (number_of_chars, line, xs') \<Rightarrow>
          if number_of_chars > 0 then
            (if number_of_chars > lw then Inl Overrun
             else stream_page err k lw xs'
                    (out @ take (nat number_of_chars) line @
                     (if line ! nat (number_of_chars - 1) \<noteq> LF then [LF] else [])))
          else if number_of_chars = 0 then Inr (0, xs', out @ eof_sentinel)
          else Inr (0, xs', out @ error_sentinel))"

definition stream_command ::
  "bool \<Rightarrow> int \<Rightarrow> nat \<Rightarrow> char \<Rightarrow> char list \<Rightarrow> char list \<Rightarrow> fault + char list \<times> char list" where
  "stream_command err lw psz command xs out =
     (if command = CHR ''f''
      then (case stream_page err psz lw xs out of
              Inl e \<Rightarrow> Inl e
            | Inr (status, xs1, out1) \<Rightarrow> Inr (xs1, out1))
      else Inr (xs, out))"

fun stream_commands ::
  "bool \<Rightarrow> int \<Rightarrow> nat \<Rightarrow> char \<Rightarrow> char list \<Rightarrow> char list \<Rightarrow> char list \<Rightarrow>
     fault + bool \<times> char list \<times> char list" where
  "stream_commands err lw psz command [] xs out =
     (case stream_command err lw psz command xs out of
        Inl e \<Rightarrow> Inl e
      | Inr (xs1, out1) \<Rightarrow> Inr (False, xs1, out1))"
| "stream_commands err lw psz command (k # keys) xs out =
     (case stream_command err lw psz command xs out of
        Inl e \<Rightarrow> Inl e
      | Inr (xs1, out1) \<Rightarrow>
          if k \<noteq> CHR ''q'' then stream_commands err lw psz k keys xs1 out1
          else Inr (True, xs1, out1))"

definition stream_main ::
  "bool \<Rightarrow> int \<Rightarrow> nat \<Rightarrow> char list \<Rightarrow> char list \<Rightarrow> char list \<Rightarrow>
     fault + bool \<times> char list \<times> char list" where
  "stream_main err lw psz name input keys =
     stream_commands err lw psz (CHR ''f'') keys input (''Opening file '' @ name @ ''...'' @ [LF])"

text \<open>
  What can be seen of a result: the fault, or the values returned with the bytes a scan can
  still get and the output. \<open>outcome\<close> is for a run whose source does not fail: whether
  the program has ended, the bytes not yet consumed and the output.
\<close>

definition line_seen ::
  "fault + int \<times> char list \<times> pager \<Rightarrow> fault + int \<times> char list \<times> char list" where
  "line_seen r = map_sum id (\<lambda>(n, line, s). (n, line, visible s)) r"

definition page_seen :: "fault + int \<times> pager \<Rightarrow> fault + int \<times> char list \<times> char list" where
  "page_seen r = map_sum id (\<lambda>(status, s). (status, visible s, stdout s)) r"

definition run_seen :: "fault + bool \<times> pager \<Rightarrow> fault + bool \<times> char list \<times> char list" where
  "run_seen r = map_sum id (\<lambda>(q, s). (q, visible s, stdout s)) r"

definition outcome :: "fault + bool \<times> pager \<Rightarrow> fault + bool \<times> char list \<times> char list" where
  "outcome r = map_sum id (\<lambda>(q, s). (q, unconsumed s, stdout s)) r"

text \<open>
  A state of the pager and a stream with its output tell the same story; the source of the
  state either does not fail (\<open>err\<close> is false) or fails for good.
\<close>

definition renders :: "nat \<Rightarrow> pager \<Rightarrow> bool \<Rightarrow> char list \<Rightarrow> char list \<Rightarrow> bool" where
  "renders bsz s err xs out =
     (window_inv bsz s \<and> fail_at (fd s) = (if err then Some 0 else None) \<and> visible s = xs \<and>
      stdout s = out)"

text \<open>The sentinel \<^verbatim>\<open>display_page\<close> writes when \<^verbatim>\<open>fetch_next_line\<close> returns \<open>n \<le> 0\<close>.\<close>

definition sentinel_of :: "int \<Rightarrow> char list" where
  "sentinel_of n = (if n = 0 then eof_sentinel else error_sentinel)"

text \<open>What \<^verbatim>\<open>fetch_next_word\<close> returns after its loop: the \<^verbatim>\<open>int\<close> and the bytes copied.\<close>

definition fnw_result :: "(int \<times> pager) + (int \<times> int \<times> bool \<times> pager) \<Rightarrow> int \<times> char list" where
  "fnw_result x =
     (case x of
        Inl (r, s') \<Rightarrow> (r, [])
      | Inr (start, count, more', s') \<Rightarrow>
          if more' then (- 2, [])
          else (count, take (nat count) (drop (nat start) (buffer s'))))"

text \<open>Inputs of the examples below.\<close>

definition overlong_source :: byte_source where
  "overlong_source = \<lparr>pending = replicate 81 (CHR ''a'') @ [LF], fail_at = None\<rparr>"

definition overlong_inside_source :: byte_source where
  "overlong_inside_source =
     \<lparr>pending = ''hello'' @ [LF] @ replicate 100 (CHR ''x'') @ [LF] @ ''bye'' @ [LF], fail_at = None\<rparr>"

definition wrapping_source :: byte_source where
  "wrapping_source = \<lparr>pending = ''aaaa '' @ replicate 78 (CHR ''b'') @ [LF], fail_at = None\<rparr>"

definition two_word_source :: byte_source where
  "two_word_source = \<lparr>pending = ''a '' @ replicate 78 (CHR ''b'') @ '' c'', fail_at = None\<rparr>"

definition full_word_source :: byte_source where
  "full_word_source = \<lparr>pending = replicate 80 (CHR ''a'') @ [LF], fail_at = None\<rparr>"

text \<open>
  States whose window ends inside a word: with 11 bytes of buffer the window holds
  \<^verbatim>\<open>ab\<close> and the file goes on with \<^verbatim>\<open>cdefgh ij\<close>, or with \<^verbatim>\<open>cdefgh\<close> and ends; with
  4 bytes of buffer the file goes on with \<^verbatim>\<open>cdef g\<close>. And a file of one short line,
  behind a source that does not fail and behind one that fails for good.
\<close>

definition split_word_state :: pager where
  "split_word_state = \<lparr>fd = \<lparr>pending = ''cdefgh ij'', fail_at = None\<rparr>, buffer = ''123456789ab'',
     buffer_start = 9, buffer_end = 10, buffer_has_data = 1, current_page_size = 0, stdout = []\<rparr>"

definition split_last_word_state :: pager where
  "split_last_word_state = \<lparr>fd = \<lparr>pending = ''cdefgh'', fail_at = None\<rparr>, buffer = ''123456789ab'',
     buffer_start = 9, buffer_end = 10, buffer_has_data = 1, current_page_size = 0, stdout = []\<rparr>"

definition short_buffer_state :: pager where
  "short_buffer_state = \<lparr>fd = \<lparr>pending = ''cdef g'', fail_at = None\<rparr>, buffer = ''x ab'',
     buffer_start = 2, buffer_end = 3, buffer_has_data = 1, current_page_size = 0, stdout = []\<rparr>"

definition short_source :: byte_source where
  "short_source = \<lparr>pending = ''hi'' @ [LF], fail_at = None\<rparr>"

definition failed_source :: byte_source where
  "failed_source = \<lparr>pending = ''hi'' @ [LF], fail_at = Some 0\<rparr>"

section \<open>The refill contract\<close>

lemma length_store_at: "off + length bytes \<le> length b \<Longrightarrow> length (store_at b off bytes) = length b"
  by (simp add: store_at_def)

lemma length_memcpy_within: "src + n \<le> length b \<Longrightarrow> dst + n \<le> length b \<Longrightarrow> length (memcpy_within b dst src n) = length b"
  by (simp add: memcpy_within_def)

lemma read_fd_cases:
  assumes "read_fd f k = (n, bytes, f')"
  shows "length bytes \<le> k"
    and "fail_at f = Some 0 \<Longrightarrow> n = - 1 \<and> bytes = [] \<and> f' = f"
    and "fail_at f \<noteq> Some 0 \<Longrightarrow> n = int (length bytes) \<and> bytes = take k (pending f) \<and>
           pending f' = drop k (pending f) \<and> fail_at f' = map_option (\<lambda>k. k - 1) (fail_at f)"
  using assms by (auto simp: read_fd_def split: if_splits)

lemma refill_buffer_unfold:
  assumes "read_fd (fd s) (nat (int bsz - pc)) = (n, bytes, f')"
  shows "refill_buffer bsz pc s =
           (n, s\<lparr>buffer_start := 0, buffer_end := pc - 1 + int (length bytes), fd := f',
                 buffer := store_at (buffer s) (nat pc) bytes,
                 buffer_has_data := (if n > 0 then 1 else 0)\<rparr>)"
proof (cases "fail_at (fd s) = Some 0")
  case True
  then show ?thesis
    using read_fd_cases(2) [OF assms] assms by (simp add: refill_buffer_def)
next
  case False
  then show ?thesis
    using read_fd_cases(3) [OF assms] assms by (simp add: refill_buffer_def)
qed

text \<open>
  Claim C5, as the code has it. For \<open>0 \<le> preserved_count \<le> C\<close> and every result of the
  byte source, \<^verbatim>\<open>refill_buffer\<close> returns what \<^verbatim>\<open>read\<close> returned, resets the window
  start to \<open>0\<close>, asks for \<open>C - preserved_count\<close> bytes and stores the bytes delivered at
  offset \<open>preserved_count\<close>, leaving the preserved bytes in place. The window end becomes
  \<open>preserved_count - 1\<close> plus the number of bytes delivered, which is the returned value
  when that is positive and \<open>0\<close> otherwise: on an I/O failure the function returns \<open>-1\<close>
  and the window end is \<open>preserved_count - 1\<close>.
\<close>

theorem refill_contract:
  assumes "0 \<le> pc" "pc \<le> int bsz" "length (buffer s) = bsz"
    and "read_fd (fd s) (nat (int bsz - pc)) = (n, bytes, f')"
    and "refill_buffer bsz pc s = (r, s')"
  shows "r = n \<and> buffer_start s' = 0 \<and> fd s' = f' \<and>
         length bytes \<le> nat (int bsz - pc) \<and>
         buffer s' = store_at (buffer s) (nat pc) bytes \<and>
         length (buffer s') = bsz \<and>
         take (nat pc) (buffer s') = take (nat pc) (buffer s) \<and>
         take (length bytes) (drop (nat pc) (buffer s')) = bytes \<and>
         buffer_end s' = pc - 1 + int (length bytes) \<and>
         buffer_end s' = pc - 1 + max r 0 \<and>
         (if fail_at (fd s) = Some 0 then r = - 1 \<and> bytes = []
          else r = int (length bytes) \<and> bytes = take (nat (int bsz - pc)) (pending (fd s)) \<and>
               pending f' = drop (nat (int bsz - pc)) (pending (fd s)))"
proof -
  note rd = read_fd_cases [OF assms(4)]
  have fit: "nat pc + length bytes \<le> length (buffer s)"
    using rd(1) assms(1-3) by linarith
  have r: "r = n" and s': "s' = s\<lparr>buffer_start := 0, buffer_end := pc - 1 + int (length bytes), fd := f',
                 buffer := store_at (buffer s) (nat pc) bytes,
                 buffer_has_data := (if n > 0 then 1 else 0)\<rparr>"
    using assms(5) unfolding refill_buffer_unfold [OF assms(4)] by auto
  have tk: "take (nat pc) (buffer s') = take (nat pc) (buffer s)"
    using fit by (simp add: s' store_at_def)
  have tk2: "take (length bytes) (drop (nat pc) (buffer s')) = bytes"
    using fit by (simp add: s' store_at_def)
  have len: "length (buffer s') = bsz"
    using fit assms(3) by (simp add: s' length_store_at)
  have rest: "(if fail_at (fd s) = Some 0 then r = - 1 \<and> bytes = []
          else r = int (length bytes) \<and> bytes = take (nat (int bsz - pc)) (pending (fd s)) \<and>
               pending f' = drop (nat (int bsz - pc)) (pending (fd s)))"
    using rd(2,3) r by (cases "fail_at (fd s) = Some 0") simp_all
  have e2: "buffer_end s' = pc - 1 + max r 0"
    using rest by (cases "fail_at (fd s) = Some 0") (simp_all add: s')
  show ?thesis
    using r rd(1) tk tk2 len e2 rest by (simp add: s')
qed

theorem refill_contract_witness:
  "fst (refill_buffer 4 1 (initial_state 4 \<lparr>pending = ''abcde'', fail_at = None\<rparr>)) = 3 \<and>
   buffer (snd (refill_buffer 4 1 (initial_state 4 \<lparr>pending = ''abcde'', fail_at = None\<rparr>))) =
     CHR 0x00 # ''abc'' \<and>
   buffer_end (snd (refill_buffer 4 1 (initial_state 4 \<lparr>pending = ''abcde'', fail_at = None\<rparr>))) = 3 \<and>
   pending (fd (snd (refill_buffer 4 1 (initial_state 4 \<lparr>pending = ''abcde'', fail_at = None\<rparr>)))) = ''de''"
proof -
  let ?s = "initial_state 4 \<lparr>pending = ''abcde'', fail_at = None\<rparr>"
  have a: "(0::int) \<le> 1" "(1::int) \<le> int 4" "length (buffer ?s) = 4"
    by (simp_all add: initial_state_def)
  have b: "read_fd (fd ?s) (nat (int 4 - 1)) =
             (3, ''abc'', \<lparr>pending = ''de'', fail_at = None\<rparr>)"
    by (simp add: read_fd_def initial_state_def)
  have c: "refill_buffer 4 1 ?s = (fst (refill_buffer 4 1 ?s), snd (refill_buffer 4 1 ?s))"
    by simp
  show ?thesis
    using refill_contract [OF a b c]
    by (simp add: store_at_def initial_state_def)
qed

text \<open>
  Claim C5 as stated sets the window end to \<open>preserved_count - 1 + bytes_read\<close> with
  \<open>bytes_read\<close> the returned value. On an I/O failure the returned value is \<open>-1\<close> and the
  window end is \<open>preserved_count - 1\<close>, not \<open>preserved_count - 2\<close>.
\<close>

theorem refill_end_counterexample:
  "fst (refill_buffer BUFFER_SIZE 0 (initial_state BUFFER_SIZE \<lparr>pending = ''ab'', fail_at = Some 0\<rparr>)) = - 1 \<and>
   buffer_end (snd (refill_buffer BUFFER_SIZE 0 (initial_state BUFFER_SIZE \<lparr>pending = ''ab'', fail_at = Some 0\<rparr>))) = - 1 \<and>
   buffer_end (snd (refill_buffer BUFFER_SIZE 0 (initial_state BUFFER_SIZE \<lparr>pending = ''ab'', fail_at = Some 0\<rparr>)))
     \<noteq> 0 - 1 + fst (refill_buffer BUFFER_SIZE 0 (initial_state BUFFER_SIZE \<lparr>pending = ''ab'', fail_at = Some 0\<rparr>))"
  by (simp add: refill_buffer_def read_fd_def initial_state_def)


section \<open>A delimiter at the start of the window\<close>

lemma fetch_next_word_delimiter:
  assumes "window_inv bsz s" "buffer_start s \<le> buffer_end s"
    and "is_delimiter (buffer s ! nat (buffer_start s))" "1 \<le> max_size"
  shows "fetch_next_word bsz max_size s =
           (1, [buffer s ! nat (buffer_start s)], s\<lparr>buffer_start := buffer_start s + 1\<rparr>)"
proof -
  have lt: "nat (buffer_start s) < length (buffer s)"
    using assms(1,2) by (auto simp: window_inv_def)
  show ?thesis
    using assms(2,3,4) lt
    apply (simp add: fetch_next_word_def fnw_loop.simps [of _ _ _ 0 True] fnw_loop.simps [of _ _ _ _ False]
        fnw_fill_def)
    apply (simp add: take_Suc hd_drop_conv_nth)
    done
qed

lemma fetch_next_line_blank:
  assumes "window_inv bsz s" "buffer_start s \<le> buffer_end s"
    and "buffer s ! nat (buffer_start s) = LF" "1 \<le> lw"
  shows "fetch_next_line bsz lw s = Inr (1, [LF], s\<lparr>buffer_start := buffer_start s + 1\<rparr>)"
proof -
  have d: "is_delimiter (buffer s ! nat (buffer_start s))"
    using assms(3) by (simp add: is_delimiter_def)
  show ?thesis
    using fetch_next_word_delimiter [OF assms(1,2) d assms(4)] assms(3,4)
    by (simp add: fetch_next_line_def fnl_loop.simps [of _ _ 0])
qed

lemma dp_loop_blank:
  assumes "window_inv bsz s" "buffer_start s \<le> buffer_end s"
    and "buffer s ! nat (buffer_start s) = LF" "1 \<le> lw"
  shows "dp_loop (Suc k) bsz lw s =
           dp_loop k bsz lw
             (s\<lparr>buffer_start := buffer_start s + 1, stdout := stdout s @ [LF],
                current_page_size := current_page_size s + 1\<rparr>)"
  using fetch_next_line_blank [OF assms] assms(4) by (simp add: put_def)

text \<open>
  Claim C10. When the first byte of the window is a delimiter (space, tab or line-feed) and
  \<open>max_size \<ge> 1\<close>, \<^verbatim>\<open>fetch_next_word\<close> returns \<open>1\<close>, the word is that single byte and
  the window start advances by one. So the line-feed of an empty input line is a word of its
  own, \<^verbatim>\<open>fetch_next_line\<close> returns it as a line of its own, and \<^verbatim>\<open>display_page\<close>
  writes it: one step of its loop appends exactly one line-feed to the output, counts one
  byte of page and goes on with the next line, and a page of one line is that line-feed.
  Blank lines are kept in the output.
\<close>

theorem delimiter_word:
  assumes "window_inv bsz s" "buffer_start s \<le> buffer_end s"
    and "is_delimiter (buffer s ! nat (buffer_start s))" "1 \<le> max_size"
  shows "fetch_next_word bsz max_size s =
           (1, [buffer s ! nat (buffer_start s)], s\<lparr>buffer_start := buffer_start s + 1\<rparr>) \<and>
         (buffer s ! nat (buffer_start s) = LF \<longrightarrow> 1 \<le> lw \<longrightarrow>
            fetch_next_line bsz lw s = Inr (1, [LF], s\<lparr>buffer_start := buffer_start s + 1\<rparr>) \<and>
            dp_loop (Suc k) bsz lw s =
              dp_loop k bsz lw
                (s\<lparr>buffer_start := buffer_start s + 1, stdout := stdout s @ [LF],
                   current_page_size := current_page_size s + 1\<rparr>) \<and>
            display_page bsz lw 1 s =
              Inr (1, s\<lparr>buffer_start := buffer_start s + 1, stdout := stdout s @ [LF],
                        current_page_size := 1\<rparr>))"
proof (intro conjI impI)
  show "fetch_next_word bsz max_size s =
           (1, [buffer s ! nat (buffer_start s)], s\<lparr>buffer_start := buffer_start s + 1\<rparr>)"
    using assms by (rule fetch_next_word_delimiter)
next
  assume a: "buffer s ! nat (buffer_start s) = LF" "1 \<le> lw"
  show "fetch_next_line bsz lw s = Inr (1, [LF], s\<lparr>buffer_start := buffer_start s + 1\<rparr>)"
    using assms(1,2) a by (rule fetch_next_line_blank)
  show "dp_loop (Suc k) bsz lw s =
              dp_loop k bsz lw
                (s\<lparr>buffer_start := buffer_start s + 1, stdout := stdout s @ [LF],
                   current_page_size := current_page_size s + 1\<rparr>)"
    using assms(1,2) a by (rule dp_loop_blank)
  have i: "window_inv bsz (s\<lparr>current_page_size := 0\<rparr>)"
    using assms(1) by (simp add: window_inv_def)
  show "display_page bsz lw 1 s =
              Inr (1, s\<lparr>buffer_start := buffer_start s + 1, stdout := stdout s @ [LF],
                        current_page_size := 1\<rparr>)"
    using dp_loop_blank [OF i, of lw 0] assms(2) a by (simp add: display_page_def)
qed

theorem delimiter_word_witness:
  "fetch_next_word 4 80 (snd (refill_buffer 4 0 (initial_state 4 \<lparr>pending = [LF, CHR ''a''], fail_at = None\<rparr>))) =
     (1, [LF], (snd (refill_buffer 4 0 (initial_state 4 \<lparr>pending = [LF, CHR ''a''], fail_at = None\<rparr>)))
                 \<lparr>buffer_start := 1\<rparr>) \<and>
   fetch_next_line 4 80 (snd (refill_buffer 4 0 (initial_state 4 \<lparr>pending = [LF, CHR ''a''], fail_at = None\<rparr>))) =
     Inr (1, [LF], (snd (refill_buffer 4 0 (initial_state 4 \<lparr>pending = [LF, CHR ''a''], fail_at = None\<rparr>)))
                 \<lparr>buffer_start := 1\<rparr>) \<and>
   display_page 4 80 1 (snd (refill_buffer 4 0 (initial_state 4 \<lparr>pending = [LF, CHR ''a''], fail_at = None\<rparr>))) =
     Inr (1, \<lparr>fd = \<lparr>pending = [], fail_at = None\<rparr>, buffer = [LF, CHR ''a'', CHR 0x00, CHR 0x00],
              buffer_start = 1, buffer_end = 1, buffer_has_data = 1, current_page_size = 1,
              stdout = [LF]\<rparr>)"
proof -
  let ?s = "snd (refill_buffer 4 0 (initial_state 4 \<lparr>pending = [LF, CHR ''a''], fail_at = None\<rparr>))"
  have s: "?s = \<lparr>fd = \<lparr>pending = [], fail_at = None\<rparr>, buffer = [LF, CHR ''a'', CHR 0x00, CHR 0x00],
                 buffer_start = 0, buffer_end = 1, buffer_has_data = 1, current_page_size = 0,
                 stdout = []\<rparr>"
    by (simp add: refill_buffer_def read_fd_def initial_state_def store_at_def eval_nat_numeral)
  have a: "window_inv 4 ?s" "buffer_start ?s \<le> buffer_end ?s"
    "is_delimiter (buffer ?s ! nat (buffer_start ?s))" "(1::int) \<le> 80"
    unfolding s by (simp_all add: window_inv_def is_delimiter_def)
  show ?thesis
    using delimiter_word [OF a, of 80 0] unfolding s by simp
qed

section \<open>The example of the specification\<close>

text \<open>
  Claim C6. With \<open>LineWidth = 10\<close> and \<open>PageSize = 1\<close> (so that the buffer has
  \<open>(10 + 1) * 1 = 11\<close> bytes), the input \<^verbatim>\<open>"abcdefgh ij\nklmno"\<close> is rendered page by
  page: the first page, shown before any key, is the line \<^verbatim>\<open>"abcdefgh "\<close> (9 bytes, with
  the line-feed the renderer adds); the next page is \<^verbatim>\<open>"ij\n"\<close>; the page after it is
  \<^verbatim>\<open>"klmno"\<close> with a line-feed added; and the next request writes the end-of-input
  sentinel. The output starts with the banner \<^verbatim>\<open>main\<close> prints.
\<close>

theorem example_pages:
  "outcome (pager_main 11 10 1 ''t'' example_source []) =
     Inr (False, ''ij'' @ [LF] @ ''klmno'', ''Opening file t...'' @ [LF] @ ''abcdefgh '' @ [LF]) \<and>
   outcome (pager_main 11 10 1 ''t'' example_source ''f'') =
     Inr (False, ''klmno'',
          ''Opening file t...'' @ [LF] @ ''abcdefgh '' @ [LF] @ ''ij'' @ [LF]) \<and>
   outcome (pager_main 11 10 1 ''t'' example_source ''ff'') =
     Inr (False, [],
          ''Opening file t...'' @ [LF] @ ''abcdefgh '' @ [LF] @ ''ij'' @ [LF] @ ''klmno'' @ [LF]) \<and>
   outcome (pager_main 11 10 1 ''t'' example_source ''fff'') =
     Inr (False, [],
          ''Opening file t...'' @ [LF] @ ''abcdefgh '' @ [LF] @ ''ij'' @ [LF] @ ''klmno'' @ [LF] @
          ''=== EOF ==='' @ [LF])"
  by code_simp

section \<open>The window through a scan\<close>

lemma length_window: "window_inv bsz s \<Longrightarrow> int (length (window s)) = buffer_end s + 1 - buffer_start s"
  by (auto simp: window_inv_def window_def)

lemma window_nth:
  assumes "window_inv bsz s" "0 \<le> c" "buffer_start s + c \<le> buffer_end s"
  shows "window s ! nat c = buffer s ! nat (buffer_start s + c)"
proof -
  have "nat c < nat (buffer_end s + 1 - buffer_start s)" using assms by linarith
  moreover have "nat (buffer_start s) + nat c = nat (buffer_start s + c)"
    using assms by (simp add: window_inv_def nat_add_distrib)
  moreover have "nat (buffer_start s) + nat c \<le> length (buffer s)"
    using assms by (auto simp: window_inv_def)
  ultimately show ?thesis
    by (simp add: window_def)
qed

lemma unconsumed_nth:
  assumes "window_inv bsz s" "0 \<le> c" "buffer_start s + c \<le> buffer_end s"
  shows "unconsumed s ! nat c = buffer s ! nat (buffer_start s + c)"
proof -
  have "nat c < length (window s)"
    using length_window [OF assms(1)] assms(2,3) by linarith
  then show ?thesis
    by (simp add: unconsumed_def nth_append window_nth [OF assms])
qed

lemma fnw_fill_keep: "start + count \<le> buffer_end s \<Longrightarrow> fnw_fill bsz start count s = Inr (start, False, s)"
  by (simp add: fnw_fill_def)

lemma fnw_fill_refill:
  assumes "buffer_end s < start + count"
    and "read_fd (fd s) (nat (int bsz - count)) = (n, bytes, f')"
  shows "fnw_fill bsz start count s =
           (if n = 0 then (if count \<noteq> 0 then Inr (0, True, compacted s count n bytes f')
                           else Inl (0, compacted s count n bytes f'))
            else if n = - 1 then Inl (- 1, compacted s count n bytes f')
            else Inr (0, False, compacted s count n bytes f'))"
proof (cases "count = 0")
  case True
  then show ?thesis
    using assms by (simp add: fnw_fill_def refill_buffer_unfold [of s bsz 0 n bytes f'] compacted_def)
next
  case False
  let ?s1 = "s\<lparr>buffer := memcpy_within (buffer s) 0 (nat (buffer_start s)) (nat count)\<rparr>"
  have "read_fd (fd ?s1) (nat (int bsz - count)) = (n, bytes, f')"
    using assms(2) by simp
  from refill_buffer_unfold [OF this] False assms(1) show ?thesis
    by (simp add: fnw_fill_def compacted_def)
qed

lemma compacted_window:
  assumes "window_inv bsz s" "0 \<le> count" "count = buffer_end s + 1 - buffer_start s"
    and "length bytes \<le> nat (int bsz - count)"
  shows "window_inv bsz (compacted s count n bytes f')"
    and "window (compacted s count n bytes f') = window s @ bytes"
proof -
  define b where "b = buffer s"
  define st where "st = nat (buffer_start s)"
  define c where "c = nat count"
  define b1 where "b1 = (if count \<noteq> 0 then memcpy_within b 0 st c else b)"
  have lb: "length b = bsz" and st: "buffer_start s = int st" and c: "count = int c"
    using assms(1,2) by (simp_all add: window_inv_def b_def st_def c_def)
  have e: "buffer_end s = int st + int c - 1"
    using assms(3) st c by simp
  have fit: "st + c \<le> bsz"
    using assms(1) st c e by (simp add: window_inv_def)
  have l1: "length b1 = bsz"
    using fit lb by (simp add: b1_def length_memcpy_within)
  have lby: "c + length bytes \<le> bsz"
    using assms(4) c fit by simp
  have l2: "length (store_at b1 c bytes) = bsz"
    using length_store_at [of c bytes b1] lby l1 by simp
  have cp: "compacted s count n bytes f' =
      s\<lparr>buffer := store_at b1 c bytes, buffer_start := 0,
        buffer_end := int c - 1 + int (length bytes), fd := f',
        buffer_has_data := (if n > 0 then 1 else 0)\<rparr>"
    by (simp add: compacted_def b1_def b_def st c)
  show "window_inv bsz (compacted s count n bytes f')"
    unfolding cp window_inv_def using l2 lby by simp
  have w: "window s = take c (drop st b)"
    by (simp add: window_def st e b_def)
  have t1: "take c b1 = window s"
  proof (cases "count = 0")
    case True
    then show ?thesis using c by (simp add: b1_def w)
  next
    case False
    then show ?thesis using fit lb by (simp add: b1_def w memcpy_within_def)
  qed
  have "window (compacted s count n bytes f') = take (c + length bytes) (store_at b1 c bytes)"
    unfolding cp by (simp add: window_def nat_add_distrib)
  also have "\<dots> = take c b1 @ bytes"
    using lby l1 by (simp add: store_at_def)
  finally show "window (compacted s count n bytes f') = window s @ bytes"
    using t1 by simp
qed


lemma preserved_refl: "window_inv bsz s \<Longrightarrow> preserved bsz s s"
  by (simp add: preserved_def)

lemma preserved_trans: "preserved bsz s t \<Longrightarrow> preserved bsz t u \<Longrightarrow> preserved bsz s u"
  unfolding preserved_def using prefix_order.trans by auto

lemma compacted_preserved:
  assumes "window_inv bsz s" "0 \<le> count" "count = buffer_end s + 1 - buffer_start s"
    and "read_fd (fd s) (nat (int bsz - count)) = (n, bytes, f')"
  shows "preserved bsz s (compacted s count n bytes f')"
proof -
  note rd = read_fd_cases [OF assms(4)]
  note cw = compacted_window [OF assms(1-3) rd(1), of n f']
  have p: "bytes @ pending f' = pending (fd s)"
    using rd(2,3) by (cases "fail_at (fd s) = Some 0") simp_all
  have f: "fail_at (fd s) = None \<longrightarrow> fail_at f' = None"
    using rd(3) by auto
  have g: "fail_at (fd s) = Some 0 \<longrightarrow> fail_at f' = Some 0 \<and> bytes = []"
    using rd(2) by auto
  have u: "unconsumed (compacted s count n bytes f') = unconsumed s"
    using p by (simp add: unconsumed_def cw(2)) (simp add: compacted_def)
  have o: "buffer_start (compacted s count n bytes f') \<le> buffer_start s"
    "stdout (compacted s count n bytes f') = stdout s"
    "current_page_size (compacted s count n bytes f') = current_page_size s"
    "fd (compacted s count n bytes f') = f'"
    using assms(1) by (simp_all add: compacted_def window_inv_def)
  show ?thesis
    unfolding preserved_def using cw u o f g by (auto simp: prefix_def)
qed

lemma fnw_fill_props:
  assumes "window_inv bsz s" "start = buffer_start s" "0 \<le> count"
    and "count \<le> buffer_end s + 1 - buffer_start s"
  shows "case fnw_fill bsz start count s of
           Inl (r, s') \<Rightarrow> preserved bsz s s' \<and> (r = 0 \<or> r = - 1)
         | Inr (start', brk, s') \<Rightarrow>
             preserved bsz s s' \<and> start' = buffer_start s' \<and>
             (if brk then count \<noteq> 0 \<and> count = buffer_end s' + 1 - buffer_start s'
              else start' + count \<le> buffer_end s')"
proof (cases "start + count \<le> buffer_end s")
  case True
  then show ?thesis
    using assms by (simp add: fnw_fill_keep preserved_refl)
next
  case False
  then have c: "count = buffer_end s + 1 - buffer_start s"
    using assms(2,4) by simp
  obtain n bytes f' where rd: "read_fd (fd s) (nat (int bsz - count)) = (n, bytes, f')"
    by (metis prod_cases3)
  note p = compacted_preserved [OF assms(1,3) c rd]
  note rc = read_fd_cases [OF rd]
  have e: "buffer_start (compacted s count n bytes f') = 0"
    "buffer_end (compacted s count n bytes f') = count - 1 + int (length bytes)"
    by (simp_all add: compacted_def)
  have n: "n = - 1 \<or> n = int (length bytes)"
    using rc(2,3) by (cases "fail_at (fd s) = Some 0") simp_all
  have f: "fnw_fill bsz start count s =
           (if n = 0 then (if count \<noteq> 0 then Inr (0, True, compacted s count n bytes f')
                           else Inl (0, compacted s count n bytes f'))
            else if n = - 1 then Inl (- 1, compacted s count n bytes f')
            else Inr (0, False, compacted s count n bytes f'))"
    using False by (intro fnw_fill_refill [OF _ rd]) simp
  show ?thesis
    unfolding f using p e n by auto
qed

lemma fnw_loop_stop: "\<not> (more' \<and> count < max_size + 1) \<Longrightarrow>
    fnw_loop bsz max_size start count more' s = Inr (start, count, more', s)"
  by (subst fnw_loop.simps) auto

lemma fnw_loop_props:
  assumes "window_inv bsz s" "start = buffer_start s" "0 \<le> count"
    and "count \<le> buffer_end s + 1 - buffer_start s"
  shows "case fnw_loop bsz max_size start count more' s of
           Inl (r, s') \<Rightarrow> preserved bsz s s' \<and> (r = 0 \<or> r = - 1)
         | Inr (start', count', more'', s') \<Rightarrow>
             preserved bsz s s' \<and> start' = buffer_start s' \<and> count \<le> count' \<and>
             count' \<le> buffer_end s' + 1 - buffer_start s' \<and>
             (more'' \<longrightarrow> more') \<and>
             (more' \<longrightarrow> \<not> more'' \<longrightarrow>
                0 < count' \<and> count' \<le> max_size + 1 \<and>
                (count' = max_size + 1 \<longrightarrow> is_delimiter (buffer s' ! nat (start' + count' - 1))))"
  using assms
proof (induction bsz max_size start count more' s rule: fnw_loop.induct)
  case (1 bsz max_size start count more' s)
  show ?case
  proof (cases "more' \<and> count < max_size + 1")
    case False
    then show ?thesis
      using "1.prems" by (auto simp: fnw_loop_stop preserved_refl)
  next
    case True
    note fp = fnw_fill_props [OF "1.prems"]
    show ?thesis
    proof (cases "fnw_fill bsz start count s")
      case (Inl a)
      have unf: "fnw_loop bsz max_size start count more' s = Inl a"
        using True Inl by (subst fnw_loop.simps) simp
      show ?thesis
        unfolding unf using fp Inl by (cases a) simp
    next
      case (Inr b)
      obtain start' brk s' where b: "b = (start', brk, s')"
        by (metis prod_cases3)
      have p: "preserved bsz s s'" and st: "start' = buffer_start s'"
        and k: "if brk then count \<noteq> 0 \<and> count = buffer_end s' + 1 - buffer_start s'
                else start' + count \<le> buffer_end s'"
        using fp Inr b by (auto split: if_splits)
      show ?thesis
      proof (cases brk)
        case True
        have unf: "fnw_loop bsz max_size start count more' s = Inr (start', count, False, s')"
          using \<open>more' \<and> count < max_size + 1\<close> Inr b True by (subst fnw_loop.simps) simp
        have "0 < count" "count < max_size + 1" "count = buffer_end s' + 1 - buffer_start s'"
          using k True "1.prems"(3) \<open>more' \<and> count < max_size + 1\<close> by auto
        then show ?thesis
          unfolding unf using p st by simp
      next
        case False
        let ?m = "if is_delimiter (buffer s' ! nat (start' + count)) then False else more'"
        have inv': "window_inv bsz s'"
          using p by (simp add: preserved_def)
        have le: "count + 1 \<le> buffer_end s' + 1 - buffer_start s'"
          using k False st by simp
        have ih: "case fnw_loop bsz max_size start' (count + 1) ?m s' of
           Inl (r, s'') \<Rightarrow> preserved bsz s' s'' \<and> (r = 0 \<or> r = - 1)
         | Inr (start'', count', more'', s'') \<Rightarrow>
             preserved bsz s' s'' \<and> start'' = buffer_start s'' \<and> count + 1 \<le> count' \<and>
             count' \<le> buffer_end s'' + 1 - buffer_start s'' \<and>
             (more'' \<longrightarrow> ?m) \<and>
             (?m \<longrightarrow> \<not> more'' \<longrightarrow>
                0 < count' \<and> count' \<le> max_size + 1 \<and>
                (count' = max_size + 1 \<longrightarrow> is_delimiter (buffer s'' ! nat (start'' + count' - 1))))"
          using "1.IH" [OF True Inr b [symmetric] refl False inv' st _ le] "1.prems"(3) by simp
        have unf: "fnw_loop bsz max_size start count more' s =
                   fnw_loop bsz max_size start' (count + 1) ?m s'"
          using True Inr b False by (subst fnw_loop.simps) simp
        show ?thesis
        proof (cases "is_delimiter (buffer s' ! nat (start' + count))")
          case True
          have "fnw_loop bsz max_size start' (count + 1) ?m s' = Inr (start', count + 1, False, s')"
            using True by (simp add: fnw_loop_stop)
          then show ?thesis
            unfolding unf using p st le True \<open>more' \<and> count < max_size + 1\<close> "1.prems"(3)
            by auto
        next
          case False
          then show ?thesis
            unfolding unf using ih p \<open>more' \<and> count < max_size + 1\<close>
            by (auto split: sum.splits dest: preserved_trans)
        qed
      qed
    qed
  qed
qed


lemma window_advance:
  assumes "window_inv bsz s" "0 \<le> c" "c \<le> buffer_end s + 1 - buffer_start s"
  shows "window_inv bsz (s\<lparr>buffer_start := buffer_start s + c\<rparr>)"
    and "window (s\<lparr>buffer_start := buffer_start s + c\<rparr>) = drop (nat c) (window s)"
    and "take (nat c) (drop (nat (buffer_start s)) (buffer s)) = take (nat c) (window s)"
    and "unconsumed s = take (nat c) (window s) @ unconsumed (s\<lparr>buffer_start := buffer_start s + c\<rparr>)"
proof -
  define st where "st = nat (buffer_start s)"
  define k where "k = nat c"
  define n where "n = nat (buffer_end s + 1 - buffer_start s)"
  have st: "buffer_start s = int st" and k: "c = int k" and e: "buffer_end s = int st + int n - 1"
    using assms by (simp_all add: window_inv_def st_def k_def n_def)
  have kn: "k \<le> n" using assms(3) k e st by simp
  show "window_inv bsz (s\<lparr>buffer_start := buffer_start s + c\<rparr>)"
    using assms(1) kn by (simp add: window_inv_def st k e)
  have w: "window s = take n (drop st (buffer s))"
    by (simp add: window_def st e)
  have w': "window (s\<lparr>buffer_start := buffer_start s + c\<rparr>) = take (n - k) (drop (st + k) (buffer s))"
    using kn by (simp add: window_def st e k nat_add_distrib nat_diff_distrib)
  show d: "window (s\<lparr>buffer_start := buffer_start s + c\<rparr>) = drop (nat c) (window s)"
    unfolding w w' using k by (simp add: drop_take add.commute)
  show "take (nat c) (drop (nat (buffer_start s)) (buffer s)) = take (nat c) (window s)"
    unfolding w using kn k st by (simp add: min_def)
  show "unconsumed s = take (nat c) (window s) @ unconsumed (s\<lparr>buffer_start := buffer_start s + c\<rparr>)"
    by (simp add: unconsumed_def d)
qed

lemma fetch_next_word_props:
  assumes "window_inv bsz s" "fetch_next_word bsz max_size s = (r, w, s')"
  shows "window_inv bsz s'" "stdout s' = stdout s" "current_page_size s' = current_page_size s"
    and "fail_at (fd s) = None \<Longrightarrow> fail_at (fd s') = None"
    and "0 < r \<Longrightarrow> int (length w) = r \<and> unconsumed s = w @ unconsumed s' \<and> r \<le> max_size + 1 \<and>
                     (r = max_size + 1 \<longrightarrow> is_delimiter (last w))"
    and "r \<le> 0 \<Longrightarrow> w = [] \<and> preserved bsz s s' \<and> (r = 0 \<or> r = - 1 \<or> r = - 2)"
proof -
  have le: "(0::int) \<le> buffer_end s + 1 - buffer_start s"
    using assms(1) by (simp add: window_inv_def)
  note lp = fnw_loop_props [where max_size = max_size and more' = True, OF assms(1) refl order_refl le]
  have all: "window_inv bsz s' \<and> stdout s' = stdout s \<and> current_page_size s' = current_page_size s \<and>
    (fail_at (fd s) = None \<longrightarrow> fail_at (fd s') = None) \<and>
    (0 < r \<longrightarrow> int (length w) = r \<and> unconsumed s = w @ unconsumed s' \<and> r \<le> max_size + 1 \<and>
                     (r = max_size + 1 \<longrightarrow> is_delimiter (last w))) \<and>
    (r \<le> 0 \<longrightarrow> w = [] \<and> preserved bsz s s' \<and> (r = 0 \<or> r = - 1 \<or> r = - 2))"
  proof (cases "fnw_loop bsz max_size (buffer_start s) 0 True s")
    case (Inl a)
    obtain r0 s0 where a: "a = (r0, s0)" by (cases a)
    have "r = r0" "w = []" "s' = s0"
      using assms(2) Inl a by (auto simp: fetch_next_word_def)
    then show ?thesis
      using lp Inl a by (auto simp: preserved_def)
  next
    case (Inr b)
    obtain start' count' more'' s0 where b: "b = (start', count', more'', s0)"
      by (cases b)
    have p: "preserved bsz s s0" and st: "start' = buffer_start s0" and c0: "0 \<le> count'"
      and cw: "count' \<le> buffer_end s0 + 1 - buffer_start s0"
      and fin: "\<not> more'' \<Longrightarrow> 0 < count' \<and> count' \<le> max_size + 1 \<and>
                (count' = max_size + 1 \<longrightarrow> is_delimiter (buffer s0 ! nat (start' + count' - 1)))"
      using lp Inr b by auto
    have inv0: "window_inv bsz s0" using p by (simp add: preserved_def)
    show ?thesis
    proof (cases more'')
      case True
      have "r = - 2" "w = []" "s' = s0"
        using assms(2) Inr b True by (auto simp: fetch_next_word_def)
      then show ?thesis
        using p by (simp add: preserved_def)
    next
      case False
      have r: "r = count'" and w: "w = take (nat count') (drop (nat start') (buffer s0))"
        and s': "s' = s0\<lparr>buffer_start := buffer_start s0 + count'\<rparr>"
        using assms(2) Inr b False by (auto simp: fetch_next_word_def)
      note wa = window_advance [OF inv0 c0 cw]
      have w2: "w = take (nat count') (window s0)"
        using wa(3) w st by simp
      have lw: "int (length w) = count'"
        using length_window [OF inv0] cw c0 unfolding w2 by simp
      have u: "unconsumed s = w @ unconsumed s'"
        using wa(4) p unfolding w2 s' by (simp add: preserved_def)
      have pos: "0 < count'" using fin False by simp
      have lastw: "last w = buffer s0 ! nat (start' + count' - 1)"
      proof -
        have "w \<noteq> []" using lw pos by auto
        then have "last w = w ! (length w - 1)" by (simp add: last_conv_nth)
        also have "\<dots> = window s0 ! nat (count' - 1)"
          using lw pos unfolding w2 by (simp add: nat_diff_distrib)
        also have "\<dots> = buffer s0 ! nat (buffer_start s0 + (count' - 1))"
          using pos cw by (intro window_nth [OF inv0]) simp_all
        finally show ?thesis using st by (simp add: algebra_simps)
      qed
      show ?thesis
        using wa(1) p fin False lw u lastw unfolding r s' by (simp add: preserved_def)
    qed
  qed
  show "window_inv bsz s'" "stdout s' = stdout s" "current_page_size s' = current_page_size s"
    "fail_at (fd s) = None \<Longrightarrow> fail_at (fd s') = None"
    "0 < r \<Longrightarrow> int (length w) = r \<and> unconsumed s = w @ unconsumed s' \<and> r \<le> max_size + 1 \<and>
                     (r = max_size + 1 \<longrightarrow> is_delimiter (last w))"
    "r \<le> 0 \<Longrightarrow> w = [] \<and> preserved bsz s s' \<and> (r = 0 \<or> r = - 1 \<or> r = - 2)"
    using all by simp_all
qed

section \<open>The window invariant\<close>

lemma fnw_reads_in_window:
  assumes "window_inv bsz s" "start = buffer_start s" "0 \<le> count"
    and "count \<le> buffer_end s + 1 - buffer_start s"
  shows "list_all (in_window bsz) (fnw_reads bsz max_size start count more' s)"
  using assms
proof (induction bsz max_size start count more' s rule: fnw_reads.induct)
  case (1 bsz max_size start count more' s)
  let ?c = "if start + count > buffer_end s then copy_reads (buffer_start s) count s else []"
  have c: "list_all (in_window bsz) ?c"
    using "1.prems" by (auto simp: copy_reads_def in_window_def window_inv_def)
  show ?case
  proof (cases "more' \<and> count < max_size + 1")
    case False
    then show ?thesis by (subst fnw_reads.simps) auto
  next
    case True
    note fp = fnw_fill_props [OF "1.prems"]
    show ?thesis
    proof (cases "fnw_fill bsz start count s")
      case (Inl a)
      have "fnw_reads bsz max_size start count more' s = ?c"
        using True Inl by (subst fnw_reads.simps) simp
      then show ?thesis using c by simp
    next
      case (Inr b)
      obtain start' brk s' where b: "b = (start', brk, s')"
        by (metis prod_cases3)
      have p: "preserved bsz s s'" and st: "start' = buffer_start s'"
        and k: "if brk then count \<noteq> 0 \<and> count = buffer_end s' + 1 - buffer_start s'
                else start' + count \<le> buffer_end s'"
        using fp Inr b by (auto split: if_splits)
      show ?thesis
      proof (cases brk)
        case True
        have "fnw_reads bsz max_size start count more' s = ?c"
          using \<open>more' \<and> count < max_size + 1\<close> Inr b True by (subst fnw_reads.simps) simp
        then show ?thesis using c by simp
      next
        case False
        let ?m = "if is_delimiter (buffer s' ! nat (start' + count)) then False else more'"
        have inv': "window_inv bsz s'"
          using p by (simp add: preserved_def)
        have le: "count + 1 \<le> buffer_end s' + 1 - buffer_start s'"
          using k False st by simp
        have ih: "list_all (in_window bsz) (fnw_reads bsz max_size start' (count + 1) ?m s')"
          using "1.IH" [OF True Inr b [symmetric] refl False inv' st _ le] "1.prems"(3) by simp
        have unf: "fnw_reads bsz max_size start count more' s =
                   ?c @ (start' + count, buffer_start s', buffer_end s') #
                   fnw_reads bsz max_size start' (count + 1) ?m s'"
          using True Inr b False by (subst fnw_reads.simps) simp
        have here: "in_window bsz (start' + count, buffer_start s', buffer_end s')"
          using inv' k False st "1.prems"(3) by (simp add: window_inv_def in_window_def)
        show ?thesis
          unfolding unf using ih here c by simp
      qed
    qed
  qed
qed

lemma fetch_next_word_reads_in_window:
  assumes "window_inv bsz s"
  shows "list_all (in_window bsz) (fetch_next_word_reads bsz max_size s)"
proof -
  have le: "(0::int) \<le> buffer_end s + 1 - buffer_start s"
    using assms by (simp add: window_inv_def)
  note r = fnw_reads_in_window [OF assms refl order_refl le, of max_size True]
  note lp = fnw_loop_props [where max_size = max_size and more' = True, OF assms refl order_refl le]
  have "list_all (in_window bsz)
          (case fnw_loop bsz max_size (buffer_start s) 0 True s of
             Inl r \<Rightarrow> []
           | Inr (start, count, more', s') \<Rightarrow> if more' then [] else copy_reads start count s')"
  proof (cases "fnw_loop bsz max_size (buffer_start s) 0 True s")
    case (Inl a)
    then show ?thesis by simp
  next
    case (Inr b)
    obtain start' count' more'' s' where b: "b = (start', count', more'', s')"
      by (cases b)
    have p: "preserved bsz s s'" and st: "start' = buffer_start s'" and c0: "0 \<le> count'"
      and cw: "count' \<le> buffer_end s' + 1 - buffer_start s'"
      using lp Inr b by auto
    have "window_inv bsz s'" using p by (simp add: preserved_def)
    then have "list_all (in_window bsz) (copy_reads start' count' s')"
      using st c0 cw by (auto simp: copy_reads_def in_window_def window_inv_def)
    then show ?thesis
      using Inr b by simp
  qed
  then show ?thesis
    using r by (simp add: fetch_next_word_reads_def)
qed

lemma refill_buffer_inv:
  assumes "length (buffer s) = bsz" "0 \<le> pc" "pc \<le> int bsz"
  shows "window_inv bsz (snd (refill_buffer bsz pc s))"
proof -
  obtain n bytes f' where rd: "read_fd (fd s) (nat (int bsz - pc)) = (n, bytes, f')"
    by (metis prod_cases3)
  have "nat pc + length bytes \<le> length (buffer s)"
    using read_fd_cases(1) [OF rd] assms by linarith
  then show ?thesis
    using assms read_fd_cases(1) [OF rd]
    by (simp add: refill_buffer_unfold [OF rd] window_inv_def length_store_at)
qed

lemma compaction_inv:
  assumes "window_inv bsz s" "0 \<le> count" "count \<le> buffer_end s + 1 - buffer_start s"
  shows "window_inv bsz (s\<lparr>buffer := memcpy_within (buffer s) 0 (nat (buffer_start s)) (nat count)\<rparr>)"
proof -
  have "nat (buffer_start s) + nat count \<le> length (buffer s)"
    using assms unfolding window_inv_def by linarith
  then show ?thesis
    using assms(1) by (simp add: window_inv_def length_memcpy_within)
qed

text \<open>
  Claim C9. The window invariant \<open>0 \<le> start \<le> end + 1 \<le> C\<close> holds for the zeroed globals
  the program starts with, and \<^verbatim>\<open>refill_buffer\<close> (called with \<open>0 \<le> preserved_count \<le> C\<close>),
  the compaction step (the \<^verbatim>\<open>memcpy\<close> of the bytes scanned so far to the front) and
  \<^verbatim>\<open>fetch_next_word\<close>, whatever it returns and for every source, keep it. Every byte a
  call of \<^verbatim>\<open>fetch_next_word\<close> reads from the array (in the \<^verbatim>\<open>switch\<close>, in the
  compaction and in the copy of the word) lies inside the window \<open>[start, end]\<close> of the
  moment of the read, and that window lies inside the array.
\<close>

theorem window_invariant:
  "(0 < bsz \<longrightarrow> window_inv bsz (initial_state bsz f)) \<and>
   (window_inv bsz s \<and> 0 \<le> pc \<and> pc \<le> int bsz \<longrightarrow>
      window_inv bsz (snd (refill_buffer bsz pc s))) \<and>
   (window_inv bsz s \<and> 0 \<le> count \<and> count \<le> buffer_end s + 1 - buffer_start s \<longrightarrow>
      window_inv bsz (s\<lparr>buffer := memcpy_within (buffer s) 0 (nat (buffer_start s)) (nat count)\<rparr>)) \<and>
   (window_inv bsz s \<longrightarrow> window_inv bsz (snd (snd (fetch_next_word bsz max_size s)))) \<and>
   (window_inv bsz s \<longrightarrow> list_all (in_window bsz) (fetch_next_word_reads bsz max_size s))"
proof (intro conjI impI)
  assume "0 < bsz"
  then show "window_inv bsz (initial_state bsz f)"
    by (simp add: window_inv_def initial_state_def)
next
  assume "window_inv bsz s \<and> 0 \<le> pc \<and> pc \<le> int bsz"
  then show "window_inv bsz (snd (refill_buffer bsz pc s))"
    using refill_buffer_inv [of s bsz pc] by (simp add: window_inv_def)
next
  assume "window_inv bsz s \<and> 0 \<le> count \<and> count \<le> buffer_end s + 1 - buffer_start s"
  then show "window_inv bsz (s\<lparr>buffer := memcpy_within (buffer s) 0 (nat (buffer_start s)) (nat count)\<rparr>)"
    using compaction_inv by simp
next
  assume i: "window_inv bsz s"
  obtain r w s' where f: "fetch_next_word bsz max_size s = (r, w, s')"
    by (metis prod_cases3)
  show "window_inv bsz (snd (snd (fetch_next_word bsz max_size s)))"
    using fetch_next_word_props(1) [OF i f] f by simp
next
  assume i: "window_inv bsz s"
  then show "list_all (in_window bsz) (fetch_next_word_reads bsz max_size s)"
    by (rule fetch_next_word_reads_in_window)
qed

theorem window_invariant_witness:
  "window_inv 4 (initial_state 4 \<lparr>pending = ''ab cd e'', fail_at = None\<rparr>) \<and>
   window_inv 4 (snd (refill_buffer 4 2 boundary_state)) \<and>
   window_inv 4 (boundary_state\<lparr>buffer := memcpy_within (buffer boundary_state) 0
                                             (nat (buffer_start boundary_state)) (nat 2)\<rparr>) \<and>
   window_inv 4 (snd (snd (fetch_next_word 4 2 boundary_state))) \<and>
   list_all (in_window 4) (fetch_next_word_reads 4 2 boundary_state)"
proof -
  have i: "window_inv 4 boundary_state"
    by (simp add: window_inv_def boundary_state_def)
  have j: "(2::int) \<le> buffer_end boundary_state + 1 - buffer_start boundary_state"
    by (simp add: boundary_state_def)
  show ?thesis
    using window_invariant [of 4 "\<lparr>pending = ''ab cd e'', fail_at = None\<rparr>" boundary_state 2 2 2] i j
    by simp
qed

section \<open>The width of a line\<close>

text \<open>
  What \<^verbatim>\<open>fetch_next_line\<close> returns when no copy overruns an array: a value of at most
  \<open>lw\<close>, which from \<open>0\<close> on is the length of the line.
\<close>

lemma fnl_loop_bound:
  assumes "window_inv bsz s" "0 \<le> count" "count \<le> lw" "int (length line) = count"
    and "fnl_loop bsz lw count line s = Inr (n, line', s')"
  shows "window_inv bsz s' \<and> - 1 \<le> n \<and> n \<le> lw \<and> (0 \<le> n \<longrightarrow> int (length line') = n)"
  using assms
proof (induction bsz lw count line s rule: fnl_loop.induct)
  case (1 bsz lw count line s)
  obtain r w s1 where f: "fetch_next_word bsz (lw - count) s = (r, w, s1)"
    by (metis prod_cases3)
  note wp = fetch_next_word_props [OF "1.prems"(1) f]
  show ?case
  proof (cases "0 < r")
    case True
    have lw: "int (length w) = r"
      using wp(5) [OF True] by simp
    have a: "\<not> lw < r" "\<not> lw < count + r"
      using "1.prems"(5) f True by (subst (asm) fnl_loop.simps, auto split: if_splits)+
    show ?thesis
    proof (cases "w ! nat (r - 1) = LF \<or> lw \<le> count + r")
      case True
      have "fnl_loop bsz lw count line s = Inr (count + r, line @ w, s1)"
        using f \<open>0 < r\<close> a True by (subst fnl_loop.simps) simp
      then have "n = count + r" "line' = line @ w" "s' = s1"
        using "1.prems"(5) by simp_all
      then show ?thesis
        using wp(1) "1.prems"(2,4) lw a \<open>0 < r\<close> by simp
    next
      case False
      have unf: "fnl_loop bsz lw (count + r) (line @ w) s1 = Inr (n, line', s')"
        using f \<open>0 < r\<close> a False "1.prems"(5) by (subst (asm) fnl_loop.simps) simp
      show ?thesis
        using False "1.prems"(2,4) \<open>0 < r\<close> lw a
        by (intro "1.IH" [OF f [symmetric] refl \<open>0 < r\<close> a False wp(1) _ _ _ unf]) simp_all
    qed
  next
    case False
    have "fnl_loop bsz lw count line s =
                 (if r = 0 \<or> r = - 2 then Inr (count, line, s1) else Inr (- 1, line, s1))"
      using f False by (subst fnl_loop.simps) simp
    then have "n = (if r = 0 \<or> r = - 2 then count else - 1)" "line' = line" "s' = s1"
      using "1.prems"(5) by (auto split: if_splits)
    then show ?thesis
      using wp(1) "1.prems"(2,3,4) by auto
  qed
qed

lemma fetch_next_line_bound:
  assumes "window_inv bsz s" "0 \<le> lw" "fetch_next_line bsz lw s = Inr (n, line, s')"
  shows "window_inv bsz s' \<and> - 1 \<le> n \<and> n \<le> lw \<and> (0 \<le> n \<longrightarrow> int (length line) = n)"
  using fnl_loop_bound [OF assms(1) order_refl assms(2), of "[]" n line s'] assms(3)
  by (simp add: fetch_next_line_def)

section \<open>The scan depends on the bytes not yet consumed alone\<close>

lemma fetch_next_word_failed:
  assumes "window_inv bsz s" "fetch_next_word bsz max_size s = (r, w, s')"
    and "fail_at (fd s) = Some 0"
  shows "fail_at (fd s') = Some 0" and "window s' = drop (nat r) (window s)"
proof -
  have le: "(0::int) \<le> buffer_end s + 1 - buffer_start s"
    using assms(1) by (simp add: window_inv_def)
  note lp = fnw_loop_props [where max_size = max_size and more' = True, OF assms(1) refl order_refl le]
  have both: "fail_at (fd s') = Some 0 \<and> window s' = drop (nat r) (window s)"
  proof (cases "fnw_loop bsz max_size (buffer_start s) 0 True s")
    case (Inl a)
    obtain r0 s0 where a: "a = (r0, s0)" by (cases a)
    have "r = r0" "s' = s0"
      using assms(2) Inl a by (auto simp: fetch_next_word_def)
    then show ?thesis
      using lp Inl a assms(3) by (auto simp: preserved_def)
  next
    case (Inr b)
    obtain start' count' more'' s0 where b: "b = (start', count', more'', s0)"
      by (cases b)
    have p: "preserved bsz s s0" and c0: "0 \<le> count'"
      and cw: "count' \<le> buffer_end s0 + 1 - buffer_start s0"
      using lp Inr b by auto
    have inv0: "window_inv bsz s0" and f0: "fail_at (fd s0) = Some 0"
      and w0: "window s0 = window s"
      using p assms(3) by (simp_all add: preserved_def)
    show ?thesis
    proof (cases more'')
      case True
      have "r = - 2" "s' = s0"
        using assms(2) Inr b True by (auto simp: fetch_next_word_def)
      then show ?thesis
        using f0 w0 by simp
    next
      case False
      have r: "r = count'" and s': "s' = s0\<lparr>buffer_start := buffer_start s0 + count'\<rparr>"
        using assms(2) Inr b False by (auto simp: fetch_next_word_def)
      show ?thesis
        using window_advance(2) [OF inv0 c0 cw] f0 w0 unfolding r s' by simp
    qed
  qed
  then show "fail_at (fd s') = Some 0" and "window s' = drop (nat r) (window s)"
    by simp_all
qed

lemma visible_nth:
  assumes "window_inv bsz s" "0 \<le> c" "buffer_start s + c \<le> buffer_end s"
  shows "visible s ! nat c = buffer s ! nat (buffer_start s + c)"
  using unconsumed_nth [OF assms] window_nth [OF assms] by (simp add: visible_def)

lemma length_window_visible: "length (window s) \<le> length (visible s)"
  by (simp add: visible_def unconsumed_def)

lemma take_window_visible:
  assumes "window_inv bsz s" "0 \<le> c" "c \<le> buffer_end s + 1 - buffer_start s"
  shows "take (nat c) (drop (nat (buffer_start s)) (buffer s)) = take (nat c) (visible s)"
proof -
  have "nat c \<le> length (window s)"
    using length_window [OF assms(1)] assms(2,3) by linarith
  then show ?thesis
    using window_advance(3) [OF assms] by (simp add: visible_def unconsumed_def)
qed

lemma preserved_visible:
  assumes "preserved bsz s s'" "fail_at (fd s) = (if err then Some 0 else None)"
  shows "visible s' = visible s" and "fail_at (fd s') = (if err then Some 0 else None)"
  using assms by (auto simp: preserved_def visible_def)

lemma fnw_fill_end:
  assumes "window_inv bsz s" "start = buffer_start s" "0 \<le> count"
    and "count \<le> buffer_end s + 1 - buffer_start s"
    and "fail_at (fd s) = (if err then Some 0 else None)" "count < int bsz"
  shows "case fnw_fill bsz start count s of
           Inl (r, s') \<Rightarrow>
             int (length (visible s)) = count \<and> (if err then r = - 1 else r = 0 \<and> count = 0)
         | Inr (start', brk, s') \<Rightarrow> brk \<longrightarrow> \<not> err \<and> int (length (visible s)) = count"
proof (cases "start + count \<le> buffer_end s")
  case True
  then show ?thesis
    by (simp add: fnw_fill_keep)
next
  case False
  then have c: "count = buffer_end s + 1 - buffer_start s"
    using assms(2,4) by simp
  obtain n bytes f' where rd: "read_fd (fd s) (nat (int bsz - count)) = (n, bytes, f')"
    by (metis prod_cases3)
  have f: "fnw_fill bsz start count s =
           (if n = 0 then (if count \<noteq> 0 then Inr (0, True, compacted s count n bytes f')
                           else Inl (0, compacted s count n bytes f'))
            else if n = - 1 then Inl (- 1, compacted s count n bytes f')
            else Inr (0, False, compacted s count n bytes f'))"
    using False by (intro fnw_fill_refill [OF _ rd]) simp
  have l: "int (length (window s)) = count"
    using length_window [OF assms(1)] c by simp
  show ?thesis
  proof (cases err)
    case True
    then have "fail_at (fd s) = Some 0" using assms(5) by simp
    then have "n = - 1" "int (length (visible s)) = count"
      using read_fd_cases(2) [OF rd] l by (simp_all add: visible_def)
    then show ?thesis
      unfolding f using True by simp
  next
    case False
    then have nf: "fail_at (fd s) \<noteq> Some 0" and nn: "fail_at (fd s) = None"
      using assms(5) by simp_all
    note rc = read_fd_cases(3) [OF rd nf]
    have n: "0 \<le> n" using rc by simp
    have e: "n = 0 \<Longrightarrow> pending (fd s) = []"
    proof -
      assume "n = 0"
      moreover from rc have "n = int (length bytes)" by (rule conjunct1)
      ultimately have "bytes = []" by simp
      moreover from rc have "bytes = take (nat (int bsz - count)) (pending (fd s))" by blast
      ultimately have "take (nat (int bsz - count)) (pending (fd s)) = []"
        by simp
      moreover have "nat (int bsz - count) \<noteq> 0"
        using assms(6) by simp
      ultimately show ?thesis
        by (simp only: take_eq_Nil) simp
    qed
    have u: "n = 0 \<Longrightarrow> int (length (visible s)) = count"
      using e l nn by (simp add: visible_def unconsumed_def)
    show ?thesis
      unfolding f using n u False by auto
  qed
qed

lemma fetch_next_word_result:
  "(fst (fetch_next_word bsz max_size s), fst (snd (fetch_next_word bsz max_size s))) =
     fnw_result (fnw_loop bsz max_size (buffer_start s) 0 True s)"
  by (auto simp: fetch_next_word_def fnw_result_def split: sum.splits)

lemma fnw_loop_stream:
  assumes "window_inv bsz s" "start = buffer_start s" "0 \<le> count"
    and "count \<le> buffer_end s + 1 - buffer_start s"
    and "fail_at (fd s) = (if err then Some 0 else None)" "max_size < int bsz" "more'"
  shows "fnw_result (fnw_loop bsz max_size start count more' s) =
           stream_word_from err max_size count (visible s)"
  using assms
proof (induction bsz max_size start count more' s rule: fnw_loop.induct)
  case (1 bsz max_size start count more' s)
  show ?case
  proof (cases "count < max_size + 1")
    case False
    then show ?thesis
      using "1.prems"(7)
      by (subst stream_word_from.simps) (simp add: fnw_loop_stop fnw_result_def)
  next
    case True
    then have go: "more' \<and> count < max_size + 1" using "1.prems"(7) by simp
    have cb: "count < int bsz" using True "1.prems"(6) by simp
    note fp = fnw_fill_props [OF "1.prems"(1-4)]
    note fe = fnw_fill_end [OF "1.prems"(1-5) cb]
    show ?thesis
    proof (cases "fnw_fill bsz start count s")
      case (Inl a)
      obtain r s' where a: "a = (r, s')" by (cases a)
      have unf: "fnw_loop bsz max_size start count more' s = Inl (r, s')"
        using go Inl a by (subst fnw_loop.simps) simp
      have "int (length (visible s)) = count" "if err then r = - 1 else r = 0 \<and> count = 0"
        using fe Inl a by simp_all
      then show ?thesis
        unfolding unf using True
        by (subst stream_word_from.simps) (auto simp: fnw_result_def)
    next
      case (Inr b)
      obtain start' brk s' where b: "b = (start', brk, s')"
        by (metis prod_cases3)
      have p: "preserved bsz s s'" and st: "start' = buffer_start s'"
        and k: "if brk then count \<noteq> 0 \<and> count = buffer_end s' + 1 - buffer_start s'
                else start' + count \<le> buffer_end s'"
        using fp Inr b by (auto split: if_splits)
      have inv': "window_inv bsz s'"
        using p by (simp add: preserved_def)
      note pv = preserved_visible [OF p "1.prems"(5)]
      show ?thesis
      proof (cases brk)
        case True
        have unf: "fnw_loop bsz max_size start count more' s = Inr (start', count, False, s')"
          using go Inr b True by (subst fnw_loop.simps) simp
        have len: "int (length (visible s)) = count" and ne: "\<not> err"
          using fe Inr b True by simp_all
        have c: "count \<noteq> 0" "count \<le> buffer_end s' + 1 - buffer_start s'"
          using k True by simp_all
        have "take (nat count) (drop (nat start') (buffer s')) = take (nat count) (visible s)"
          using take_window_visible [OF inv' "1.prems"(3) c(2)] st pv(1) by simp
        then show ?thesis
          unfolding unf using \<open>count < max_size + 1\<close> len c(1) ne
          by (subst stream_word_from.simps) (simp add: fnw_result_def)
      next
        case False
        let ?d = "is_delimiter (buffer s' ! nat (start' + count))"
        let ?m = "if ?d then False else more'"
        have le: "count + 1 \<le> buffer_end s' + 1 - buffer_start s'"
          using k False st by simp
        have unf: "fnw_loop bsz max_size start count more' s =
                   fnw_loop bsz max_size start' (count + 1) ?m s'"
          using go Inr b False by (subst fnw_loop.simps) simp
        have byte: "buffer s' ! nat (start' + count) = visible s ! nat count"
          using visible_nth [OF inv' "1.prems"(3)] k False st pv(1) by simp
        have lt: "count < int (length (visible s))"
        proof -
          have "int (length (window s')) \<le> int (length (visible s'))"
            using length_window_visible [of s'] by simp
          then show ?thesis
            using length_window [OF inv'] le pv(1) by simp
        qed
        show ?thesis
        proof (cases ?d)
          case True
          have stop: "fnw_loop bsz max_size start' (count + 1) ?m s' =
                      Inr (start', count + 1, False, s')"
            using True by (simp add: fnw_loop_stop)
          have c1: "0 \<le> count + 1" using "1.prems"(3) by simp
          have "take (nat (count + 1)) (drop (nat start') (buffer s')) =
                take (nat (count + 1)) (visible s)"
            using take_window_visible [OF inv' c1 le] st pv(1) by simp
          then show ?thesis
            unfolding unf stop using \<open>count < max_size + 1\<close> lt True byte
            by (subst stream_word_from.simps) (simp add: fnw_result_def)
        next
          case False
          have m: "?m" using False "1.prems"(7) by simp
          have c1: "0 \<le> count + 1" using "1.prems"(3) by simp
          have ih: "fnw_result (fnw_loop bsz max_size start' (count + 1) ?m s') =
                      stream_word_from err max_size (count + 1) (visible s')"
            using "1.IH" [OF go Inr b [symmetric] refl \<open>\<not> brk\<close> inv' st c1 le pv(2) "1.prems"(6) m] .
          show ?thesis
            unfolding unf ih pv(1) using \<open>count < max_size + 1\<close> lt False byte
            by (subst (2) stream_word_from.simps) simp
        qed
      qed
    qed
  qed
qed

lemma fetch_next_word_stream:
  assumes "renders bsz s err xs out" "max_size < int bsz"
    and "fetch_next_word bsz max_size s = (r, w, s')"
  shows "stream_word err max_size xs = (r, w)"
    and "renders bsz s' err (drop (nat r) xs) out"
    and "current_page_size s' = current_page_size s"
proof -
  have i: "window_inv bsz s" and nf: "fail_at (fd s) = (if err then Some 0 else None)"
    and u: "visible s = xs" and o: "stdout s = out"
    using assms(1) by (simp_all add: renders_def)
  have le: "(0::int) \<le> buffer_end s + 1 - buffer_start s"
    using i by (simp add: window_inv_def)
  have "fnw_result (fnw_loop bsz max_size (buffer_start s) 0 True s) =
          stream_word_from err max_size 0 (visible s)"
    by (rule fnw_loop_stream [OF i refl order_refl le nf assms(2)]) simp
  then show "stream_word err max_size xs = (r, w)"
    using fetch_next_word_result [of bsz max_size s] assms(3) u by (simp add: stream_word_def)
  note wp = fetch_next_word_props [OF i assms(3)]
  have d: "visible s' = drop (nat r) xs \<and> fail_at (fd s') = (if err then Some 0 else None)"
  proof (cases err)
    case True
    then have f: "fail_at (fd s) = Some 0" using nf by simp
    show ?thesis
      using fetch_next_word_failed [OF i assms(3) f] f u True by (simp add: visible_def)
  next
    case False
    then have f: "fail_at (fd s) = None" using nf by simp
    have f': "fail_at (fd s') = None" using wp(4) [OF f] .
    have "unconsumed s' = drop (nat r) (unconsumed s)"
    proof (cases "0 < r")
      case True
      then show ?thesis using wp(5) by auto
    next
      case False
      then show ?thesis using wp(6) by (simp add: preserved_def)
    qed
    then show ?thesis
      using f f' u False by (simp add: visible_def)
  qed
  show "renders bsz s' err (drop (nat r) xs) out"
    using wp(1,2) d o by (simp add: renders_def)
  show "current_page_size s' = current_page_size s"
    using wp(3) .
qed

lemma fnl_loop_stream:
  assumes "renders bsz s err xs out" "lw < int bsz" "0 \<le> count"
  shows "case fnl_loop bsz lw count line s of
           Inl e \<Rightarrow> stream_line_from err lw count line xs = Inl e
         | Inr (n, line', s') \<Rightarrow>
             stream_line_from err lw count line xs = Inr (n, line', visible s') \<and>
             renders bsz s' err (visible s') out \<and> current_page_size s' = current_page_size s"
  using assms
proof (induction bsz lw count line s arbitrary: xs rule: fnl_loop.induct)
  case (1 bsz lw count line s)
  obtain r w s1 where f: "fetch_next_word bsz (lw - count) s = (r, w, s1)"
    by (metis prod_cases3)
  have m: "lw - count < int bsz" using "1.prems"(2,3) by simp
  note ws = fetch_next_word_stream [OF "1.prems"(1) m f]
  have u1: "visible s1 = drop (nat r) xs"
    using ws(2) by (simp add: renders_def)
  show ?case
  proof (cases "0 < r")
    case True
    show ?thesis
    proof (cases "lw < r \<or> lw < count + r")
      case True
      have unf: "fnl_loop bsz lw count line s = Inl Overrun"
        using f \<open>0 < r\<close> True by (subst fnl_loop.simps) auto
      have "stream_line_from err lw count line xs = Inl Overrun"
        using ws(1) \<open>0 < r\<close> True by (subst stream_line_from.simps) auto
      then show ?thesis
        unfolding unf by simp
    next
      case False
      then have a: "\<not> lw < r" "\<not> lw < count + r"
        by simp_all
      show ?thesis
      proof (cases "w ! nat (r - 1) = LF \<or> lw \<le> count + r")
        case True
        have unf: "fnl_loop bsz lw count line s = Inr (count + r, line @ w, s1)"
          using f \<open>0 < r\<close> a True by (subst fnl_loop.simps) simp
        have "stream_line_from err lw count line xs = Inr (count + r, line @ w, drop (nat r) xs)"
          using ws(1) \<open>0 < r\<close> a True by (subst stream_line_from.simps) simp
        then show ?thesis
          unfolding unf using ws(2,3) u1 by simp
      next
        case False
        have unf: "fnl_loop bsz lw count line s = fnl_loop bsz lw (count + r) (line @ w) s1"
          using f \<open>0 < r\<close> a False by (subst fnl_loop.simps) simp
        have unf': "stream_line_from err lw count line xs =
                      stream_line_from err lw (count + r) (line @ w) (drop (nat r) xs)"
          using ws(1) \<open>0 < r\<close> a False by (subst stream_line_from.simps) simp
        have c: "0 \<le> count + r" using "1.prems"(3) \<open>0 < r\<close> by simp
        show ?thesis
          unfolding unf unf'
          using "1.IH" [OF f [symmetric] refl \<open>0 < r\<close> a False ws(2) "1.prems"(2) c] ws(3)
          by (auto split: sum.splits)
      qed
    qed
  next
    case False
    have unf: "fnl_loop bsz lw count line s =
                 Inr (if r = 0 \<or> r = - 2 then count else - 1, line, s1)"
      using f False by (subst fnl_loop.simps) simp
    have unf': "stream_line_from err lw count line xs =
                 Inr (if r = 0 \<or> r = - 2 then count else - 1, line, xs)"
      using ws(1) False by (subst stream_line_from.simps) simp
    have d: "drop (nat r) xs = xs" using False by simp
    show ?thesis
      unfolding unf unf' using ws(2,3) u1 d by simp
  qed
qed

lemma fetch_next_line_stream:
  assumes "renders bsz s err xs out" "lw < int bsz"
  shows "stream_line err lw xs = line_seen (fetch_next_line bsz lw s)"
    and "fetch_next_line bsz lw s = Inr (n, line, s') \<Longrightarrow>
           renders bsz s' err (visible s') out \<and> current_page_size s' = current_page_size s"
  using fnl_loop_stream [OF assms order_refl, of "[]"]
  by (auto simp: fetch_next_line_def stream_line_def line_seen_def split: sum.splits)

lemma renders_put: "renders bsz s err xs out \<Longrightarrow> renders bsz (put bytes s) err xs (out @ bytes)"
  by (auto simp: renders_def put_def window_inv_def visible_def unconsumed_def window_def)

lemma renders_page_size:
  "renders bsz s err xs out \<Longrightarrow> renders bsz (s\<lparr>current_page_size := c\<rparr>) err xs out"
  by (auto simp: renders_def window_inv_def visible_def unconsumed_def window_def)

lemma dp_loop_stream:
  assumes "renders bsz s err xs out" "lw < int bsz"
  shows "stream_page err k lw xs out = page_seen (dp_loop k bsz lw s) \<and>
         (\<forall>st s'. dp_loop k bsz lw s = Inr (st, s') \<longrightarrow> renders bsz s' err (visible s') (stdout s'))"
  using assms
proof (induction k arbitrary: s xs out)
  case 0
  then show ?case by (simp add: renders_def page_seen_def)
next
  case (Suc k)
  note ls = fetch_next_line_stream [OF Suc.prems(1,2)]
  show ?case
  proof (cases "fetch_next_line bsz lw s")
    case (Inl e)
    have "stream_line err lw xs = Inl e"
      using ls(1) Inl by (simp add: line_seen_def)
    then show ?thesis
      using Inl by (simp add: page_seen_def)
  next
    case (Inr x)
    obtain n line s1 where x: "x = (n, line, s1)"
      by (metis prod_cases3)
    have f: "fetch_next_line bsz lw s = Inr (n, line, s1)"
      using Inr x by simp
    have sl: "stream_line err lw xs = Inr (n, line, visible s1)"
      using ls(1) f by (simp add: line_seen_def)
    have r1: "renders bsz s1 err (visible s1) out"
      using ls(2) [OF f] by simp
    show ?thesis
    proof (cases "0 < n")
      case True
      show ?thesis
      proof (cases "lw < n")
        case True
        then show ?thesis
          using f sl \<open>0 < n\<close> by (simp add: page_seen_def)
      next
        case False
        let ?s4 = "let s2 = put (take (nat n) line) s1;
                       s3 = s2\<lparr>current_page_size := current_page_size s2 + n\<rparr>
                   in (if line ! nat (n - 1) \<noteq> LF then put [LF] s3 else s3)"
        let ?out = "out @ take (nat n) line @ (if line ! nat (n - 1) \<noteq> LF then [LF] else [])"
        have r4: "renders bsz ?s4 err (visible s1) ?out"
          using renders_put [OF renders_page_size [OF renders_put [OF r1]]]
            renders_page_size [OF renders_put [OF r1]]
          by (simp add: Let_def)
        have d: "dp_loop (Suc k) bsz lw s = dp_loop k bsz lw ?s4"
          using f \<open>0 < n\<close> False by (simp add: Let_def)
        have d': "stream_page err (Suc k) lw xs out = stream_page err k lw (visible s1) ?out"
          using sl \<open>0 < n\<close> False by simp
        show ?thesis
          unfolding d d' using Suc.IH [OF r4 Suc.prems(2)] .
      qed
    next
      case False
      let ?S = "if n = 0 then eof_sentinel else error_sentinel"
      have d: "dp_loop (Suc k) bsz lw s = Inr (0, put ?S s1)"
        using f False by simp
      have d': "stream_page err (Suc k) lw xs out = Inr (0, visible s1, out @ ?S)"
        using sl False by simp
      have "renders bsz (put ?S s1) err (visible s1) (out @ ?S)"
        using r1 by (rule renders_put)
      then show ?thesis
        unfolding d d' by (simp add: page_seen_def renders_def)
    qed
  qed
qed

lemma display_page_stream:
  assumes "renders bsz s err xs out" "lw < int bsz"
  shows "stream_page err psz lw xs out = page_seen (display_page bsz lw psz s)"
    and "display_page bsz lw psz s = Inr (st, s') \<Longrightarrow> renders bsz s' err (visible s') (stdout s')"
  using dp_loop_stream [OF renders_page_size [OF assms(1), of 0] assms(2), where k = psz]
  by (simp_all add: display_page_def)

lemma do_command_stream:
  assumes "renders bsz s err xs out" "lw < int bsz"
  shows "stream_command err lw psz command xs out =
           map_sum id (\<lambda>s'. (visible s', stdout s')) (do_command bsz lw psz command s)"
    and "do_command bsz lw psz command s = Inr s' \<Longrightarrow> renders bsz s' err (visible s') (stdout s')"
proof -
  note ds = display_page_stream [OF assms, of psz]
  show "stream_command err lw psz command xs out =
           map_sum id (\<lambda>s'. (visible s', stdout s')) (do_command bsz lw psz command s)"
    using ds(1) assms(1)
    by (auto simp: stream_command_def do_command_def page_seen_def renders_def split: sum.splits)
  show "do_command bsz lw psz command s = Inr s' \<Longrightarrow> renders bsz s' err (visible s') (stdout s')"
    using ds(2) assms(1)
    by (auto simp: do_command_def renders_def split: sum.splits if_splits)
qed

lemma command_loop_stream:
  assumes "renders bsz s err xs out" "lw < int bsz"
  shows "stream_commands err lw psz command keys xs out =
           run_seen (command_loop bsz lw psz command keys s) \<and>
         (\<forall>q s'. command_loop bsz lw psz command keys s = Inr (q, s') \<longrightarrow>
            renders bsz s' err (visible s') (stdout s'))"
  using assms
proof (induction keys arbitrary: command s xs out)
  case Nil
  note dc = do_command_stream [OF Nil.prems, of psz command]
  show ?case
  proof (cases "do_command bsz lw psz command s")
    case (Inl e)
    then show ?thesis
      using dc(1) by (simp add: run_seen_def)
  next
    case (Inr s1)
    then show ?thesis
      using dc(1) dc(2) [OF Inr] by (simp add: run_seen_def)
  qed
next
  case (Cons k keys)
  note dc = do_command_stream [OF Cons.prems, of psz command]
  show ?case
  proof (cases "do_command bsz lw psz command s")
    case (Inl e)
    then show ?thesis
      using dc(1) by (simp add: run_seen_def)
  next
    case (Inr s1)
    have sc: "stream_command err lw psz command xs out = Inr (visible s1, stdout s1)"
      using dc(1) Inr by simp
    note r1 = dc(2) [OF Inr]
    show ?thesis
    proof (cases "k = CHR ''q''")
      case True
      then show ?thesis
        using Inr sc r1 by (simp add: run_seen_def)
    next
      case False
      then show ?thesis
        using Inr sc Cons.IH [OF r1 Cons.prems(2), of k] by simp
    qed
  qed
qed

lemma refill_renders:
  assumes "length (buffer s) = bsz" "fail_at (fd s) = (if err then Some 0 else None)"
  shows "renders bsz (snd (refill_buffer bsz 0 s)) err (if err then [] else pending (fd s)) (stdout s)"
proof -
  obtain n bytes f' where rd: "read_fd (fd s) (nat (int bsz - 0)) = (n, bytes, f')"
    by (metis prod_cases3)
  note rl = read_fd_cases(1) [OF rd]
  have i: "window_inv bsz (snd (refill_buffer bsz 0 s))"
    using refill_buffer_inv [of s bsz 0] assms(1) by simp
  have w: "window (snd (refill_buffer bsz 0 s)) = bytes"
    using rl assms(1) by (simp add: refill_buffer_unfold [OF rd] window_def store_at_def)
  show ?thesis
  proof (cases err)
    case True
    then have f: "fail_at (fd s) = Some 0" using assms(2) by simp
    have "bytes = []" "f' = fd s"
      using read_fd_cases(2) [OF rd f] by simp_all
    then show ?thesis
      using i w f True by (simp add: renders_def visible_def refill_buffer_unfold [OF rd])
  next
    case False
    then have f: "fail_at (fd s) = None" using assms(2) by simp
    then have nf: "fail_at (fd s) \<noteq> Some 0" by simp
    note rc = read_fd_cases(3) [OF rd nf]
    have "bytes @ pending f' = pending (fd s)"
      using rc by simp
    then have u: "unconsumed (snd (refill_buffer bsz 0 s)) = pending (fd s)"
      using w by (simp add: unconsumed_def refill_buffer_unfold [OF rd])
    have f'': "fail_at (fd (snd (refill_buffer bsz 0 s))) = None"
      using rc f by (simp add: refill_buffer_unfold [OF rd])
    show ?thesis
      using i u f'' False by (simp add: renders_def visible_def refill_buffer_unfold [OF rd])
  qed
qed

lemma pager_main_renders:
  assumes "fail_at f = (if err then Some 0 else None)" "lw < int bsz"
  shows "stream_main err lw psz name (if err then [] else pending f) keys =
           run_seen (pager_main bsz lw psz name f keys)"
    and "pager_main bsz lw psz name f keys = Inr (q, s') \<Longrightarrow>
           renders bsz s' err (visible s') (stdout s')"
proof -
  let ?s0 = "put (''Opening file '' @ name @ ''...'' @ [LF]) (initial_state bsz f)"
  have e: "fd ?s0 = f" "stdout ?s0 = ''Opening file '' @ name @ ''...'' @ [LF]"
    "length (buffer ?s0) = bsz"
    by (simp_all add: put_def initial_state_def)
  have "renders bsz (snd (refill_buffer bsz 0 ?s0)) err (if err then [] else pending (fd ?s0)) (stdout ?s0)"
    using assms(1) e(1,3) by (intro refill_renders) simp_all
  then have r: "renders bsz (snd (refill_buffer bsz 0 ?s0)) err (if err then [] else pending f)
                  (''Opening file '' @ name @ ''...'' @ [LF])"
    by (simp only: e)
  have p: "pager_main bsz lw psz name f keys =
             command_loop bsz lw psz (CHR ''f'') keys (snd (refill_buffer bsz 0 ?s0))"
    by (simp add: pager_main_def Let_def)
  note cs = command_loop_stream [OF r assms(2), of psz "CHR ''f''" keys]
  show "stream_main err lw psz name (if err then [] else pending f) keys =
           run_seen (pager_main bsz lw psz name f keys)"
    unfolding p using cs by (simp add: stream_main_def)
  show "pager_main bsz lw psz name f keys = Inr (q, s') \<Longrightarrow>
           renders bsz s' err (visible s') (stdout s')"
    unfolding p using cs by simp
qed

lemma pager_main_stream:
  assumes "fail_at f = None" "lw < int bsz"
  shows "stream_main False lw psz name (pending f) keys = outcome (pager_main bsz lw psz name f keys)"
proof -
  have a: "fail_at f = (if False then Some 0 else None)"
    using assms(1) by simp
  note pm = pager_main_renders [OF a assms(2), of psz name keys]
  have "run_seen (pager_main bsz lw psz name f keys) = outcome (pager_main bsz lw psz name f keys)"
  proof (cases "pager_main bsz lw psz name f keys")
    case (Inl e)
    then show ?thesis by (simp add: run_seen_def outcome_def)
  next
    case (Inr x)
    obtain q s' where x: "x = (q, s')" by (metis prod.exhaust)
    have "visible s' = unconsumed s'"
      using pm(2) [of q s'] Inr x by (simp add: renders_def visible_def)
    then show ?thesis
      using Inr x by (simp add: run_seen_def outcome_def)
  qed
  then show ?thesis
    using pm(1) by simp
qed

section \<open>The program with its macros, on the stream\<close>

lemma mypager_stream:
  assumes "fail_at f = None"
  shows "stream_main False LINE_WIDTH PAGE_SIZE name (pending f) keys = outcome (mypager name f keys)"
  unfolding mypager_def
  by (rule pager_main_stream [OF assms]) (simp add: LINE_WIDTH_def BUFFER_SIZE_def PAGE_SIZE_def)

section \<open>The capacity of the buffer\<close>

text \<open>
  Claim C8, as the code has it. For two capacities that both exceed the line width (as
  \<^verbatim>\<open>BUFFER_SIZE = (LINE_WIDTH + 1) * PAGE_SIZE\<close> always does) the capacity cannot be
  observed: from states that hold the same bytes for the scan (\<open>renders\<close>: both sources do
  not fail and the same bytes are unconsumed, or both fail for good and the windows hold the
  same bytes), \<^verbatim>\<open>fetch_next_word\<close> (with a budget up to the line width) and
  \<^verbatim>\<open>fetch_next_line\<close> return the same value and the same bytes and leave the same bytes
  (or both overrun an array), and for a source that does not fail the whole program writes
  the same output for the same file and keystrokes.
\<close>

theorem capacity_transparent:
  assumes "lw < int bsz1" "lw < int bsz2"
  shows "(renders bsz1 s1 err xs out \<and> renders bsz2 s2 err xs out \<and> max_size \<le> lw \<longrightarrow>
            fst (fetch_next_word bsz1 max_size s1) = fst (fetch_next_word bsz2 max_size s2) \<and>
            fst (snd (fetch_next_word bsz1 max_size s1)) = fst (snd (fetch_next_word bsz2 max_size s2)) \<and>
            visible (snd (snd (fetch_next_word bsz1 max_size s1))) =
              visible (snd (snd (fetch_next_word bsz2 max_size s2)))) \<and>
         (renders bsz1 s1 err xs out \<and> renders bsz2 s2 err xs out \<longrightarrow>
            line_seen (fetch_next_line bsz1 lw s1) = line_seen (fetch_next_line bsz2 lw s2)) \<and>
         (fail_at f = None \<longrightarrow>
            outcome (pager_main bsz1 lw psz name f keys) = outcome (pager_main bsz2 lw psz name f keys))"
proof (intro conjI impI)
  assume a: "renders bsz1 s1 err xs out \<and> renders bsz2 s2 err xs out \<and> max_size \<le> lw"
  obtain r1 w1 t1 where f1: "fetch_next_word bsz1 max_size s1 = (r1, w1, t1)"
    by (metis prod_cases3)
  obtain r2 w2 t2 where f2: "fetch_next_word bsz2 max_size s2 = (r2, w2, t2)"
    by (metis prod_cases3)
  have m: "max_size < int bsz1" "max_size < int bsz2"
    using a assms by simp_all
  have a1: "renders bsz1 s1 err xs out" and a2: "renders bsz2 s2 err xs out"
    using a by simp_all
  note x1 = fetch_next_word_stream [OF a1 m(1) f1]
  note x2 = fetch_next_word_stream [OF a2 m(2) f2]
  have "(r1, w1) = (r2, w2)" "visible t1 = visible t2"
    using x1(1,2) x2(1,2) by (simp_all add: renders_def)
  then show "fst (fetch_next_word bsz1 max_size s1) = fst (fetch_next_word bsz2 max_size s2)"
    "fst (snd (fetch_next_word bsz1 max_size s1)) = fst (snd (fetch_next_word bsz2 max_size s2))"
    "visible (snd (snd (fetch_next_word bsz1 max_size s1))) =
              visible (snd (snd (fetch_next_word bsz2 max_size s2)))"
    using f1 f2 by simp_all
next
  assume a: "renders bsz1 s1 err xs out \<and> renders bsz2 s2 err xs out"
  have a1: "renders bsz1 s1 err xs out" and a2: "renders bsz2 s2 err xs out"
    using a by simp_all
  show "line_seen (fetch_next_line bsz1 lw s1) = line_seen (fetch_next_line bsz2 lw s2)"
    using fetch_next_line_stream(1) [OF a1 assms(1)] fetch_next_line_stream(1) [OF a2 assms(2)]
    by simp
next
  assume nf: "fail_at f = None"
  show "outcome (pager_main bsz1 lw psz name f keys) = outcome (pager_main bsz2 lw psz name f keys)"
    using pager_main_stream [OF nf assms(1), of psz name keys]
      pager_main_stream [OF nf assms(2), of psz name keys] by simp
qed

theorem capacity_transparent_witness:
  "fst (fetch_next_word BUFFER_SIZE 80 (snd (refill_buffer BUFFER_SIZE 0 (initial_state BUFFER_SIZE wrapping_source)))) =
     fst (fetch_next_word 81 80 (snd (refill_buffer 81 0 (initial_state 81 wrapping_source)))) \<and>
   line_seen (fetch_next_line BUFFER_SIZE LINE_WIDTH (snd (refill_buffer BUFFER_SIZE 0 (initial_state BUFFER_SIZE wrapping_source)))) =
     line_seen (fetch_next_line 81 LINE_WIDTH (snd (refill_buffer 81 0 (initial_state 81 wrapping_source)))) \<and>
   outcome (pager_main BUFFER_SIZE LINE_WIDTH PAGE_SIZE ''t'' wrapping_source ''fq'') =
     outcome (pager_main 81 LINE_WIDTH PAGE_SIZE ''t'' wrapping_source ''fq'')"
proof -
  let ?s1 = "snd (refill_buffer BUFFER_SIZE 0 (initial_state BUFFER_SIZE wrapping_source))"
  let ?s2 = "snd (refill_buffer 81 0 (initial_state 81 wrapping_source))"
  have nf: "fail_at wrapping_source = None"
    by (simp add: wrapping_source_def)
  have r1: "renders BUFFER_SIZE ?s1 False (pending wrapping_source) []"
    using refill_renders [of "initial_state BUFFER_SIZE wrapping_source" BUFFER_SIZE False] nf
    by (simp add: initial_state_def)
  have r2: "renders 81 ?s2 False (pending wrapping_source) []"
    using refill_renders [of "initial_state 81 wrapping_source" 81 False] nf
    by (simp add: initial_state_def)
  have b: "LINE_WIDTH < int BUFFER_SIZE" "LINE_WIDTH < int 81" "(80::int) \<le> LINE_WIDTH"
    by (simp_all add: LINE_WIDTH_def BUFFER_SIZE_def PAGE_SIZE_def)
  show ?thesis
    using capacity_transparent [OF b(1,2), of ?s1 False "pending wrapping_source" "[]" ?s2 80
        wrapping_source PAGE_SIZE "''t''" "''fq''"] r1 r2 b(3) nf
    by simp
qed

text \<open>
  Claim C8 as stated, for any two capacities, fails for a capacity not above the line width:
  with 4 bytes of buffer a refill that has no room left reads nothing, which the scan takes
  for the end of the file, so words are cut at 4 bytes and a piece of a word that does not
  fit the line is put on it. The same file gives other lines than with the program's buffer.
\<close>

theorem small_capacity_counterexample:
  "outcome (pager_main 4 LINE_WIDTH PAGE_SIZE ''t'' wrapping_source []) =
     Inr (False, [],
          ''Opening file t...'' @ [LF] @ ''aaaa '' @ replicate 72 (CHR ''b'') @ [LF] @
          ''bbbbbb'' @ [LF] @ eof_sentinel) \<and>
   outcome (mypager ''t'' wrapping_source []) =
     Inr (False, [],
          ''Opening file t...'' @ [LF] @ ''aaaa '' @ [LF] @ replicate 78 (CHR ''b'') @ [LF] @
          eof_sentinel) \<and>
   outcome (pager_main 4 LINE_WIDTH PAGE_SIZE ''t'' wrapping_source []) \<noteq>
     outcome (mypager ''t'' wrapping_source [])"
proof -
  have s: "stream_main False LINE_WIDTH PAGE_SIZE ''t'' (pending wrapping_source) [] =
    Inr (False, [], ''Opening file t...'' @ [LF] @ ''aaaa '' @ [LF] @ replicate 78 (CHR ''b'') @ [LF] @ eof_sentinel)"
    unfolding LINE_WIDTH_def PAGE_SIZE_def wrapping_source_def by code_simp
  have c: "outcome (pager_main 4 LINE_WIDTH PAGE_SIZE ''t'' wrapping_source []) =
     Inr (False, [],
          ''Opening file t...'' @ [LF] @ ''aaaa '' @ replicate 72 (CHR ''b'') @ [LF] @
          ''bbbbbb'' @ [LF] @ eof_sentinel)"
    unfolding LINE_WIDTH_def PAGE_SIZE_def wrapping_source_def by code_simp
  have ne: "''Opening file t...'' @ [LF] @ ''aaaa '' @ replicate 72 (CHR ''b'') @ [LF] @
     ''bbbbbb'' @ [LF] @ eof_sentinel \<noteq>
     ''Opening file t...'' @ [LF] @ ''aaaa '' @ [LF] @ replicate 78 (CHR ''b'') @ [LF] @ eof_sentinel"
    by code_simp
  have m: "outcome (mypager ''t'' wrapping_source []) =
     Inr (False, [],
          ''Opening file t...'' @ [LF] @ ''aaaa '' @ [LF] @ replicate 78 (CHR ''b'') @ [LF] @
          eof_sentinel)"
    using s mypager_stream [of wrapping_source "''t''" "[]"]
    by (simp add: wrapping_source_def)
  show ?thesis
    unfolding c m using ne by simp
qed

section \<open>Lines of more than \<^verbatim>\<open>LINE_WIDTH\<close> bytes\<close>

lemma line_seen_fault: "line_seen r = Inl e \<Longrightarrow> r = Inl e"
  by (cases r) (simp_all add: line_seen_def)

lemma outcome_fault: "outcome r = Inl e \<Longrightarrow> r = Inl e"
  by (cases r) (simp_all add: outcome_def)

text \<open>
  Claim C3 bounds a line of several words by \<open>LineWidth = 80\<close> bytes, and the arrays
  \<^verbatim>\<open>char line[LINE_WIDTH]\<close> and \<^verbatim>\<open>char word[LINE_WIDTH]\<close> have room for no more. The
  scan does not keep to it: \<^verbatim>\<open>count < max_size + 1\<close> lets a word of \<open>max_size + 1\<close>
  bytes through. For the file \<^verbatim>\<open>"a "\<close>, 78 times \<^verbatim>\<open>b\<close>, \<^verbatim>\<open>" c"\<close> the first word has 2
  bytes and the second, fetched with the budget \<open>LINE_WIDTH - 2 = 78\<close>, has 79, so that
  \<^verbatim>\<open>memcpy(line + count, word, number_of_chars)\<close> writes 81 bytes into \<^verbatim>\<open>line\<close>:
  \<^verbatim>\<open>fetch_next_line\<close> and the program overrun the array. For the file of 80 times \<^verbatim>\<open>a\<close>
  and a line-feed the first word has 81 bytes, which neither \<^verbatim>\<open>word\<close> nor \<^verbatim>\<open>line\<close>
  holds.
\<close>

theorem line_overruns_array:
  "fst (fetch_next_word BUFFER_SIZE LINE_WIDTH
          (snd (refill_buffer BUFFER_SIZE 0 (initial_state BUFFER_SIZE two_word_source)))) = 2 \<and>
   fst (fetch_next_word BUFFER_SIZE (LINE_WIDTH - 2)
          (snd (snd (fetch_next_word BUFFER_SIZE LINE_WIDTH
             (snd (refill_buffer BUFFER_SIZE 0 (initial_state BUFFER_SIZE two_word_source))))))) = 79 \<and>
   LINE_WIDTH < 2 + 79 \<and>
   fetch_next_line BUFFER_SIZE LINE_WIDTH
     (snd (refill_buffer BUFFER_SIZE 0 (initial_state BUFFER_SIZE two_word_source))) = Inl Overrun \<and>
   mypager ''t'' two_word_source [] = Inl Overrun \<and>
   fst (fetch_next_word BUFFER_SIZE LINE_WIDTH
          (snd (refill_buffer BUFFER_SIZE 0 (initial_state BUFFER_SIZE full_word_source)))) = 81 \<and>
   fetch_next_line BUFFER_SIZE LINE_WIDTH
     (snd (refill_buffer BUFFER_SIZE 0 (initial_state BUFFER_SIZE full_word_source))) = Inl Overrun \<and>
   mypager ''t'' full_word_source [] = Inl Overrun"
proof -
  let ?s = "snd (refill_buffer BUFFER_SIZE 0 (initial_state BUFFER_SIZE two_word_source))"
  let ?t = "snd (refill_buffer BUFFER_SIZE 0 (initial_state BUFFER_SIZE full_word_source))"
  have nf: "fail_at two_word_source = None" "fail_at full_word_source = None"
    by (simp_all add: two_word_source_def full_word_source_def)
  have r: "renders BUFFER_SIZE ?s False (pending two_word_source) []"
    using refill_renders [of "initial_state BUFFER_SIZE two_word_source" BUFFER_SIZE False] nf
    by (simp add: initial_state_def)
  have r': "renders BUFFER_SIZE ?t False (pending full_word_source) []"
    using refill_renders [of "initial_state BUFFER_SIZE full_word_source" BUFFER_SIZE False] nf
    by (simp add: initial_state_def)
  have b: "LINE_WIDTH < int BUFFER_SIZE" "LINE_WIDTH - 2 < int BUFFER_SIZE"
    by (simp_all add: LINE_WIDTH_def BUFFER_SIZE_def PAGE_SIZE_def)
  have w1: "stream_word False LINE_WIDTH (pending two_word_source) = (2, ''a '')"
    unfolding LINE_WIDTH_def two_word_source_def by code_simp
  have w2: "stream_word False (LINE_WIDTH - 2) (drop (nat 2) (pending two_word_source)) =
              (79, replicate 78 (CHR ''b'') @ '' '')"
    unfolding LINE_WIDTH_def two_word_source_def by code_simp
  have l: "stream_line False LINE_WIDTH (pending two_word_source) = Inl Overrun"
    unfolding LINE_WIDTH_def two_word_source_def by code_simp
  have p: "stream_main False LINE_WIDTH PAGE_SIZE ''t'' (pending two_word_source) [] = Inl Overrun"
    unfolding LINE_WIDTH_def PAGE_SIZE_def two_word_source_def by code_simp
  have w': "stream_word False LINE_WIDTH (pending full_word_source) =
              (81, replicate 80 (CHR ''a'') @ [LF])"
    unfolding LINE_WIDTH_def full_word_source_def by code_simp
  have l': "stream_line False LINE_WIDTH (pending full_word_source) = Inl Overrun"
    unfolding LINE_WIDTH_def full_word_source_def by code_simp
  have p': "stream_main False LINE_WIDTH PAGE_SIZE ''t'' (pending full_word_source) [] = Inl Overrun"
    unfolding LINE_WIDTH_def PAGE_SIZE_def full_word_source_def by code_simp
  obtain k word s1 where g: "fetch_next_word BUFFER_SIZE LINE_WIDTH ?s = (k, word, s1)"
    by (metis prod_cases3)
  note gs = fetch_next_word_stream [OF r b(1) g]
  have k: "k = 2"
    using gs(1) w1 by simp
  have r1: "renders BUFFER_SIZE s1 False (drop (nat 2) (pending two_word_source)) []"
    using gs(2) unfolding k .
  obtain k2 word2 s2 where g2: "fetch_next_word BUFFER_SIZE (LINE_WIDTH - 2) s1 = (k2, word2, s2)"
    by (metis prod_cases3)
  have k2: "k2 = 79"
    using fetch_next_word_stream(1) [OF r1 b(2) g2] w2 by simp
  obtain k' word' s' where g': "fetch_next_word BUFFER_SIZE LINE_WIDTH ?t = (k', word', s')"
    by (metis prod_cases3)
  have k': "k' = 81"
    using fetch_next_word_stream(1) [OF r' b(1) g'] w' by simp
  have f: "fetch_next_line BUFFER_SIZE LINE_WIDTH ?s = Inl Overrun"
    using fetch_next_line_stream(1) [OF r b(1)] l by (intro line_seen_fault) simp
  have f': "fetch_next_line BUFFER_SIZE LINE_WIDTH ?t = Inl Overrun"
    using fetch_next_line_stream(1) [OF r' b(1)] l' by (intro line_seen_fault) simp
  have m: "mypager ''t'' two_word_source [] = Inl Overrun"
    using mypager_stream [OF nf(1), of "''t''" "[]"] p by (intro outcome_fault) simp
  have m': "mypager ''t'' full_word_source [] = Inl Overrun"
    using mypager_stream [OF nf(2), of "''t''" "[]"] p' by (intro outcome_fault) simp
  show ?thesis
    unfolding f f' m m' g using g2 g' k k2 k' by (simp add: LINE_WIDTH_def)
qed

section \<open>A word longer than the line\<close>

text \<open>
  Claim C1 asks that a word of more than \<open>LineWidth\<close> bytes is shown whole on a line of
  its own. The program does not show it at all. For a file that is 81 times \<^verbatim>\<open>a\<close> and a
  line-feed, \<^verbatim>\<open>fetch_next_word\<close> returns \<open>-2\<close> at the start of the line,
  \<^verbatim>\<open>fetch_next_line\<close> returns \<open>0\<close> and \<^verbatim>\<open>display_page\<close> takes that for the end of the
  file: every page is the end-of-input sentinel, and the 82 bytes stay unconsumed.
\<close>

theorem overlong_word_never_shown:
  "outcome (mypager ''t'' overlong_source ''fff'') =
     Inr (False, replicate 81 (CHR ''a'') @ [LF],
          ''Opening file t...'' @ [LF] @ eof_sentinel @ eof_sentinel @ eof_sentinel @ eof_sentinel)"
proof -
  have "stream_main False LINE_WIDTH PAGE_SIZE ''t'' (pending overlong_source) ''fff'' =
   Inr (False, replicate 81 (CHR ''a'') @ [LF],
    ''Opening file t...'' @ [LF] @ eof_sentinel @ eof_sentinel @ eof_sentinel @ eof_sentinel)"
    unfolding LINE_WIDTH_def PAGE_SIZE_def overlong_source_def by code_simp
  then show ?thesis
    using mypager_stream [of overlong_source "''t''" "''fff''"]
    by (simp add: overlong_source_def)
qed

text \<open>
  A line returned by \<^verbatim>\<open>fetch_next_line\<close> is the front of the bytes not yet consumed, and
  the bytes after it are the ones left, for every source: within what is rendered nothing is
  lost, doubled or reordered.
\<close>

lemma fnl_loop_consumes:
  assumes "window_inv bsz s"
    and "fnl_loop bsz lw count line s = Inr (n, line', s')" "0 \<le> n"
  shows "\<exists>ws. line' = line @ ws \<and> unconsumed s = ws @ unconsumed s'"
  using assms
proof (induction bsz lw count line s rule: fnl_loop.induct)
  case (1 bsz lw count line s)
  obtain r w s1 where f: "fetch_next_word bsz (lw - count) s = (r, w, s1)"
    by (metis prod_cases3)
  note wp = fetch_next_word_props [OF "1.prems"(1) f]
  show ?case
  proof (cases "0 < r")
    case True
    have u: "unconsumed s = w @ unconsumed s1"
      using wp(5) [OF True] by simp
    have a: "\<not> lw < r" "\<not> lw < count + r"
      using "1.prems"(2) f True by (subst (asm) fnl_loop.simps, auto split: if_splits)+
    show ?thesis
    proof (cases "w ! nat (r - 1) = LF \<or> lw \<le> count + r")
      case True
      have "fnl_loop bsz lw count line s = Inr (count + r, line @ w, s1)"
        using f \<open>0 < r\<close> a True by (subst fnl_loop.simps) simp
      then show ?thesis
        using "1.prems"(2) u by auto
    next
      case False
      have "fnl_loop bsz lw (count + r) (line @ w) s1 = Inr (n, line', s')"
        using f \<open>0 < r\<close> a False "1.prems"(2) by (subst (asm) fnl_loop.simps) simp
      from "1.IH" [OF f [symmetric] refl \<open>0 < r\<close> a False wp(1) this "1.prems"(3)]
      obtain ws where "line' = (line @ w) @ ws" "unconsumed s1 = ws @ unconsumed s'"
        by blast
      then show ?thesis
        using u by auto
    qed
  next
    case False
    have "fnl_loop bsz lw count line s =
                 (if r = 0 \<or> r = - 2 then Inr (count, line, s1) else Inr (- 1, line, s1))"
      using f False by (subst fnl_loop.simps) simp
    then have "line' = line" "s' = s1"
      using "1.prems"(2) by (auto split: if_splits)
    moreover have "unconsumed s1 = unconsumed s"
      using wp(6) False by (simp add: preserved_def)
    ultimately show ?thesis
      by simp
  qed
qed

lemma fetch_next_line_consumes:
  assumes "window_inv bsz s" "fetch_next_line bsz lw s = Inr (n, line, s')" "0 \<le> n"
  shows "unconsumed s = line @ unconsumed s'"
  using fnl_loop_consumes [OF assms(1), of lw 0 "[]" n line s'] assms(2,3)
  by (auto simp: fetch_next_line_def)

text \<open>
  Claim C7 asks that the output, without the line-feeds the renderer added, is the input.
  For a file with a line of 100 bytes \<^verbatim>\<open>x\<close> between two short lines the output stops
  before that line: the first line is written, then the sentinel on every page; the long line
  and what follows it are never written.
\<close>

theorem rest_of_file_lost:
  "outcome (mypager ''t'' overlong_inside_source ''ff'') =
     Inr (False, replicate 100 (CHR ''x'') @ [LF] @ ''bye'' @ [LF],
          ''Opening file t...'' @ [LF] @ ''hello'' @ [LF] @ eof_sentinel @ eof_sentinel @ eof_sentinel)"
proof -
  have "stream_main False LINE_WIDTH PAGE_SIZE ''t'' (pending overlong_inside_source) ''ff'' =
   Inr (False, replicate 100 (CHR ''x'') @ [LF] @ ''bye'' @ [LF],
    ''Opening file t...'' @ [LF] @ ''hello'' @ [LF] @ eof_sentinel @ eof_sentinel @ eof_sentinel)"
    unfolding LINE_WIDTH_def PAGE_SIZE_def overlong_inside_source_def by code_simp
  then show ?thesis
    using mypager_stream [of overlong_inside_source "''t''" "''ff''"]
    by (simp add: overlong_inside_source_def)
qed

section \<open>An overlong word consumes nothing\<close>

lemma stream_word_from_delimiter:
  assumes "0 \<le> count" "nat count \<le> k" "k < length xs" "is_delimiter (xs ! k)"
    and "\<forall>i. nat count \<le> i \<and> i < k \<longrightarrow> \<not> is_delimiter (xs ! i)" "int k \<le> max_size"
  shows "stream_word_from err max_size count xs = (int k + 1, take (k + 1) xs)"
  using assms
proof (induction "k - nat count" arbitrary: count)
  case 0
  then have c: "count = int k" by simp
  show ?case
    using 0 unfolding c by (subst stream_word_from.simps) (simp add: nat_add_distrib)
next
  case (Suc d)
  have lt: "nat count < k" using Suc.hyps(2) by simp
  have nd: "\<not> is_delimiter (xs ! nat count)" using Suc.prems(5) lt by simp
  have ih: "stream_word_from err max_size (count + 1) xs = (int k + 1, take (k + 1) xs)"
    using Suc.hyps(2) Suc.prems lt by (intro Suc.hyps(1)) (auto simp: nat_add_distrib)
  have a: "count < int (length xs)" "count < max_size + 1"
    using lt Suc.prems(1,3,6) by linarith+
  show ?case
    using nd a ih by (subst stream_word_from.simps) simp
qed

lemma stream_word_from_rest:
  assumes "0 \<le> count" "nat count \<le> length xs" "xs \<noteq> []"
    and "\<forall>i. nat count \<le> i \<and> i < length xs \<longrightarrow> \<not> is_delimiter (xs ! i)"
    and "int (length xs) \<le> max_size"
  shows "stream_word_from False max_size count xs = (int (length xs), xs)"
  using assms
proof (induction "length xs - nat count" arbitrary: count)
  case 0
  then have c: "count = int (length xs)" by simp
  show ?case
    using 0 unfolding c by (subst stream_word_from.simps) simp
next
  case (Suc d)
  have lt: "nat count < length xs" using Suc.hyps(2) by simp
  have nd: "\<not> is_delimiter (xs ! nat count)" using Suc.prems(4) lt by simp
  have ih: "stream_word_from False max_size (count + 1) xs = (int (length xs), xs)"
    using Suc.hyps(2) Suc.prems lt by (intro Suc.hyps(1)) (auto simp: nat_add_distrib)
  have a: "count < int (length xs)" "count < max_size + 1"
    using lt Suc.prems(1,5) by linarith+
  show ?case
    using nd a ih by (subst stream_word_from.simps) simp
qed

text \<open>
  Claim C2, as the code has it. When \<^verbatim>\<open>fetch_next_word\<close> returns \<open>-2\<close> (from a state
  with the window invariant, for every \<open>max_size\<close> and every source), the window start has
  not advanced (it is unchanged, or a refill has reset it to \<open>0\<close>), and no unconsumed byte
  is lost: the bytes of the old window are the front of the new window, which a refill may
  have extended by bytes read from the file, and the unconsumed bytes (the window, then the
  rest of the file) are the same. So a later call gets the word whole when the source does
  not fail and its budget is below the capacity of the buffer and reaches the delimiter that
  ends the word (at index \<open>k\<close> of the unconsumed bytes), or the end of a file that ends
  with the word.
\<close>

theorem overlong_consumes_nothing:
  assumes "window_inv bsz s" "fetch_next_word bsz max_size s = (- 2, w, s')"
  shows "buffer_start s' \<le> buffer_start s \<and> prefix (window s) (window s') \<and>
         unconsumed s' = unconsumed s \<and> window_inv bsz s' \<and> w = [] \<and>
         (fail_at (fd s) = None \<and> budget < int bsz \<and> k < length (unconsumed s) \<and>
          int k \<le> budget \<and> is_delimiter (unconsumed s ! k) \<and>
          (\<forall>i<k. \<not> is_delimiter (unconsumed s ! i)) \<longrightarrow>
            fst (fetch_next_word bsz budget s') = int k + 1 \<and>
            fst (snd (fetch_next_word bsz budget s')) = take (k + 1) (unconsumed s) \<and>
            unconsumed (snd (snd (fetch_next_word bsz budget s'))) = drop (k + 1) (unconsumed s)) \<and>
         (fail_at (fd s) = None \<and> budget < int bsz \<and> unconsumed s \<noteq> [] \<and>
          int (length (unconsumed s)) \<le> budget \<and>
          (\<forall>i<length (unconsumed s). \<not> is_delimiter (unconsumed s ! i)) \<longrightarrow>
            fst (fetch_next_word bsz budget s') = int (length (unconsumed s)) \<and>
            fst (snd (fetch_next_word bsz budget s')) = unconsumed s \<and>
            unconsumed (snd (snd (fetch_next_word bsz budget s'))) = [])"
proof -
  note wp = fetch_next_word_props [OF assms]
  have p: "preserved bsz s s'" and w: "w = []"
    using wp(6) by simp_all
  have i': "window_inv bsz s'" and u: "unconsumed s' = unconsumed s"
    using p by (simp_all add: preserved_def)
  obtain r2 w2 s2 where f2: "fetch_next_word bsz budget s' = (r2, w2, s2)"
    by (metis prod_cases3)
  have again: "fail_at (fd s) = None \<Longrightarrow> budget < int bsz \<Longrightarrow>
      stream_word False budget (unconsumed s) = (r2, w2) \<and> unconsumed s2 = drop (nat r2) (unconsumed s)"
  proof -
    assume nf: "fail_at (fd s) = None" and b: "budget < int bsz"
    have r: "renders bsz s' False (unconsumed s) (stdout s')"
      using i' u wp(4) [OF nf] by (simp add: renders_def visible_def)
    show ?thesis
      using fetch_next_word_stream(1,2) [OF r b f2] by (auto simp: renders_def visible_def)
  qed
  show ?thesis
  proof (intro conjI impI)
    assume h: "fail_at (fd s) = None \<and> budget < int bsz \<and> k < length (unconsumed s) \<and>
          int k \<le> budget \<and> is_delimiter (unconsumed s ! k) \<and>
          (\<forall>i<k. \<not> is_delimiter (unconsumed s ! i))"
    have "stream_word False budget (unconsumed s) = (int k + 1, take (k + 1) (unconsumed s))"
      unfolding stream_word_def using h by (intro stream_word_from_delimiter) simp_all
    then have "r2 = int k + 1" "w2 = take (k + 1) (unconsumed s)"
      "unconsumed s2 = drop (k + 1) (unconsumed s)"
      using again h by (simp_all add: nat_add_distrib)
    then show "fst (fetch_next_word bsz budget s') = int k + 1"
      "fst (snd (fetch_next_word bsz budget s')) = take (k + 1) (unconsumed s)"
      "unconsumed (snd (snd (fetch_next_word bsz budget s'))) = drop (k + 1) (unconsumed s)"
      using f2 by simp_all
  next
    assume h: "fail_at (fd s) = None \<and> budget < int bsz \<and> unconsumed s \<noteq> [] \<and>
          int (length (unconsumed s)) \<le> budget \<and>
          (\<forall>i<length (unconsumed s). \<not> is_delimiter (unconsumed s ! i))"
    have "stream_word False budget (unconsumed s) = (int (length (unconsumed s)), unconsumed s)"
      unfolding stream_word_def using h by (intro stream_word_from_rest) simp_all
    then have "r2 = int (length (unconsumed s))" "w2 = unconsumed s" "unconsumed s2 = []"
      using again h by simp_all
    then show "fst (fetch_next_word bsz budget s') = int (length (unconsumed s))"
      "fst (snd (fetch_next_word bsz budget s')) = unconsumed s"
      "unconsumed (snd (snd (fetch_next_word bsz budget s'))) = []"
      using f2 by simp_all
  qed (use p w in \<open>simp_all add: preserved_def\<close>)
qed

theorem overlong_consumes_nothing_witness:
  "buffer_start (snd (snd (fetch_next_word 11 3 split_word_state))) \<le> buffer_start split_word_state \<and>
   prefix (window split_word_state) (window (snd (snd (fetch_next_word 11 3 split_word_state)))) \<and>
   unconsumed (snd (snd (fetch_next_word 11 3 split_word_state))) = ''abcdefgh ij'' \<and>
   fst (fetch_next_word 11 10 (snd (snd (fetch_next_word 11 3 split_word_state)))) = 9 \<and>
   fst (snd (fetch_next_word 11 10 (snd (snd (fetch_next_word 11 3 split_word_state))))) = ''abcdefgh '' \<and>
   fst (fetch_next_word 11 10 (snd (snd (fetch_next_word 11 3 split_last_word_state)))) = 8 \<and>
   fst (snd (fetch_next_word 11 10 (snd (snd (fetch_next_word 11 3 split_last_word_state))))) = ''abcdefgh''"
proof -
  let ?A = "split_word_state" and ?B = "split_last_word_state"
  have iA: "window_inv 11 ?A" and iB: "window_inv 11 ?B"
    by (simp_all add: window_inv_def split_word_state_def split_last_word_state_def)
  have "fst (fetch_next_word 11 3 ?A) = - 2" "fst (snd (fetch_next_word 11 3 ?A)) = []"
    "fst (fetch_next_word 11 3 ?B) = - 2" "fst (snd (fetch_next_word 11 3 ?B)) = []"
    by code_simp+
  then have fA: "fetch_next_word 11 3 ?A = (- 2, [], snd (snd (fetch_next_word 11 3 ?A)))"
    and fB: "fetch_next_word 11 3 ?B = (- 2, [], snd (snd (fetch_next_word 11 3 ?B)))"
    by (simp_all add: prod_eq_iff)
  have uA: "unconsumed ?A = ''abcdefgh ij''" and uB: "unconsumed ?B = ''abcdefgh''"
    by (simp_all add: unconsumed_def window_def split_word_state_def split_last_word_state_def)
  have nf: "fail_at (fd ?A) = None" "fail_at (fd ?B) = None"
    by (simp_all add: split_word_state_def split_last_word_state_def)
  have hA: "fail_at (fd ?A) = None \<and> 10 < int 11 \<and> 8 < length (unconsumed ?A) \<and>
          int 8 \<le> 10 \<and> is_delimiter (unconsumed ?A ! 8) \<and>
          (\<forall>i<8. \<not> is_delimiter (unconsumed ?A ! i))"
    unfolding uA using nf(1)
    by (simp add: is_delimiter_def LF_def TAB_def eval_nat_numeral All_less_Suc)
  have hB: "fail_at (fd ?B) = None \<and> 10 < int 11 \<and> unconsumed ?B \<noteq> [] \<and>
          int (length (unconsumed ?B)) \<le> 10 \<and>
          (\<forall>i<length (unconsumed ?B). \<not> is_delimiter (unconsumed ?B ! i))"
    unfolding uB using nf(2)
    by (simp add: is_delimiter_def LF_def TAB_def eval_nat_numeral All_less_Suc)
  show ?thesis
    using overlong_consumes_nothing [OF iA fA, of 10 8] overlong_consumes_nothing [OF iB fB, of 10 8]
      hA hB uA uB
    by simp
qed

text \<open>
  Claim C2 as stated fails in two places. With 4 bytes of buffer, the window \<^verbatim>\<open>ab\<close> and
  the file going on with \<^verbatim>\<open>cdef g\<close>, a call with \<open>max_size = 2\<close> returns \<open>-2\<close> after a
  refill, and the window is then \<^verbatim>\<open>abcd\<close>, not the window of before. And a later call with
  the budget 10, enough for the 7 bytes of \<^verbatim>\<open>abcdef \<close>, returns \<^verbatim>\<open>abcd\<close>: with the
  buffer full the refill reads nothing, which the scan takes for the end of the file.
\<close>

theorem overlong_window_counterexample:
  "fst (fetch_next_word 4 2 short_buffer_state) = - 2 \<and>
   window short_buffer_state = ''ab'' \<and>
   window (snd (snd (fetch_next_word 4 2 short_buffer_state))) = ''abcd'' \<and>
   unconsumed short_buffer_state = ''abcdef g'' \<and>
   fst (snd (fetch_next_word 4 10 (snd (snd (fetch_next_word 4 2 short_buffer_state))))) = ''abcd''"
  by code_simp

section \<open>After the end of the stream\<close>

lemma stream_word_from_range:
  assumes "0 \<le> count" "stream_word_from err max_size count xs = (r, w)"
  shows "r = - 2 \<or> 0 < r \<or> (r = 0 \<and> count = 0 \<and> \<not> err) \<or>
         (r = - 1 \<and> err \<and> int (length xs) \<le> max_size \<and>
          (\<forall>i. nat count \<le> i \<and> i < length xs \<longrightarrow> \<not> is_delimiter (xs ! i)))"
  using assms
proof (induction err max_size count xs rule: stream_word_from.induct)
  case (1 err max_size count xs)
  show ?case
  proof (cases "count < max_size + 1 \<and> \<not> int (length xs) \<le> count \<and> \<not> is_delimiter (xs ! nat count)")
    case True
    then have "stream_word_from err max_size (count + 1) xs = (r, w)"
      using "1.prems"(2) by (subst (asm) stream_word_from.simps) simp
    then have ih: "r = - 2 \<or> 0 < r \<or> (r = 0 \<and> count + 1 = 0 \<and> \<not> err) \<or>
         (r = - 1 \<and> err \<and> int (length xs) \<le> max_size \<and>
          (\<forall>i. nat (count + 1) \<le> i \<and> i < length xs \<longrightarrow> \<not> is_delimiter (xs ! i)))"
      using "1.IH" [of] True "1.prems"(1) by simp
    have "\<And>i. nat count \<le> i \<Longrightarrow> i = nat count \<or> nat (count + 1) \<le> i"
      using "1.prems"(1) by linarith
    then show ?thesis
      using ih True "1.prems"(1) by (elim disjE) auto
  next
    case False
    then show ?thesis
      using "1.prems" by (subst (asm) stream_word_from.simps) (auto split: if_splits)
  qed
qed

lemma stream_word_from_fails:
  assumes "0 \<le> count" "nat count \<le> length xs"
    and "\<forall>i. nat count \<le> i \<and> i < length xs \<longrightarrow> \<not> is_delimiter (xs ! i)"
    and "int (length xs) \<le> max_size"
  shows "stream_word_from True max_size count xs = (- 1, [])"
  using assms
proof (induction "length xs - nat count" arbitrary: count)
  case 0
  then have c: "count = int (length xs)" by simp
  show ?case
    using 0 unfolding c by (subst stream_word_from.simps) simp
next
  case (Suc d)
  have lt: "nat count < length xs" using Suc.hyps(2) by simp
  have nd: "\<not> is_delimiter (xs ! nat count)" using Suc.prems(3) lt by simp
  have ih: "stream_word_from True max_size (count + 1) xs = (- 1, [])"
    using Suc.hyps(2) Suc.prems lt by (intro Suc.hyps(1)) (auto simp: nat_add_distrib)
  have a: "count < int (length xs)" "count < max_size + 1"
    using lt Suc.prems(1,4) by linarith+
  show ?case
    using nd a ih by (subst stream_word_from.simps) simp
qed

lemma stream_line_from_range:
  assumes "0 \<le> count" "stream_line_from err lw count line xs = Inr (n, line', xs')"
  shows "(n = - 1 \<or> count \<le> n) \<and> (n = count \<longrightarrow> xs' = xs) \<and>
         (n = - 1 \<longrightarrow> err \<and> stream_word err lw xs' = (- 1, []))"
  using assms
proof (induction err lw count line xs rule: stream_line_from.induct)
  case (1 err lw count line xs)
  obtain r w where sw: "stream_word err (lw - count) xs = (r, w)"
    by (metis prod.exhaust)
  note rg = stream_word_from_range [of 0 err "lw - count" xs r w]
  show ?case
  proof (cases "0 < r")
    case True
    have a: "\<not> lw < r" "\<not> lw < count + r"
      using "1.prems"(2) sw True by (subst (asm) stream_line_from.simps, auto split: if_splits)+
    show ?thesis
    proof (cases "w ! nat (r - 1) = LF \<or> lw \<le> count + r")
      case True
      then show ?thesis
        using "1.prems" sw \<open>0 < r\<close> a by (subst (asm) stream_line_from.simps) auto
    next
      case False
      have "stream_line_from err lw (count + r) (line @ w) (drop (nat r) xs) = Inr (n, line', xs')"
        using "1.prems"(2) sw \<open>0 < r\<close> a False by (subst (asm) stream_line_from.simps) simp
      from "1.IH" [OF sw [symmetric] \<open>0 < r\<close> a False _ this] "1.prems"(1) \<open>0 < r\<close>
      show ?thesis by auto
    qed
  next
    case False
    have res: "(n, line', xs') = (if r = 0 \<or> r = - 2 then (count, line, xs) else (- 1, line, xs))"
      using "1.prems"(2) sw False by (subst (asm) stream_line_from.simps) (auto split: if_splits)
    show ?thesis
    proof (cases "r = 0 \<or> r = - 2")
      case True
      then show ?thesis
        using res "1.prems"(1) by auto
    next
      case False
      then have e: "err" "int (length xs) \<le> lw - count"
        "\<forall>i. i < length xs \<longrightarrow> \<not> is_delimiter (xs ! i)"
        using rg sw \<open>\<not> 0 < r\<close> by (auto simp: stream_word_def)
      have "stream_word_from True lw 0 xs = (- 1, [])"
        using e(2,3) "1.prems"(1) by (intro stream_word_from_fails) auto
      then show ?thesis
        using res False e(1) "1.prems"(1) by (auto simp: stream_word_def)
    qed
  qed
qed

lemma stream_line_end:
  assumes "stream_line err lw xs = Inr (n, line, xs')" "n \<le> 0"
  shows "\<exists>line'. stream_line err lw xs' = Inr (n, line', xs') \<and> (n = 0 \<or> n = - 1 \<and> err)"
proof -
  note rg = stream_line_from_range [of 0 err lw "[]" xs n line xs']
  have c: "n = 0 \<and> xs' = xs \<or> n = - 1 \<and> err \<and> stream_word err lw xs' = (- 1, [])"
    using rg assms by (auto simp: stream_line_def)
  show ?thesis
  proof (cases "n = 0")
    case True
    then show ?thesis using c assms(1) by auto
  next
    case False
    then have w: "stream_word err lw xs' = (- 1, [])" and n: "n = - 1" and e: "err"
      using c by auto
    have "stream_line err lw xs' = Inr (- 1, [], xs')"
      unfolding stream_line_def using w by (subst stream_line_from.simps) simp
    then show ?thesis
      using n e by simp
  qed
qed

lemma stream_page_end:
  assumes "stream_page err k lw xs out = Inr (0, xs', out')"
  shows "\<exists>n line. stream_line err lw xs' = Inr (n, line, xs') \<and> n \<le> 0 \<and> (\<not> err \<longrightarrow> n = 0)"
  using assms
proof (induction k arbitrary: xs out)
  case 0
  then show ?case by simp
next
  case (Suc k)
  show ?case
  proof (cases "stream_line err lw xs")
    case (Inl e)
    then show ?thesis
      using Suc.prems by simp
  next
    case (Inr x)
    obtain n line xs1 where x: "x = (n, line, xs1)"
      by (metis prod_cases3)
    have sl: "stream_line err lw xs = Inr (n, line, xs1)"
      using Inr x by simp
    show ?thesis
    proof (cases "0 < n")
      case True
      have "stream_page err k lw xs1
              (out @ take (nat n) line @ (if line ! nat (n - 1) \<noteq> LF then [LF] else [])) =
            Inr (0, xs', out')"
        using Suc.prems sl True by (simp split: if_splits)
      then show ?thesis
        by (rule Suc.IH)
    next
      case False
      then have n: "n \<le> 0" by simp
      have "xs' = xs1"
        using Suc.prems sl False by (simp split: if_splits)
      then show ?thesis
        using stream_line_end [OF sl n] n by auto
    qed
  qed
qed

lemma stream_page_again:
  assumes "stream_line err lw xs = Inr (n, line, xs)" "n \<le> 0"
  shows "stream_page err (Suc k) lw xs out = Inr (0, xs, out @ sentinel_of n)"
  using assms by (simp add: sentinel_of_def)

lemma stream_commands_after_end:
  assumes "stream_line err lw xs = Inr (n, line, xs)" "n \<le> 0"
  shows "stream_commands err lw (Suc k) (CHR ''f'') (replicate m (CHR ''f'')) xs out =
           Inr (False, xs, out @ concat (replicate (Suc m) (sentinel_of n)))"
    and "stream_commands err lw (Suc k) (CHR ''f'') (replicate m (CHR ''f'') @ [CHR ''q'']) xs out =
           Inr (True, xs, out @ concat (replicate (Suc m) (sentinel_of n)))"
proof -
  have pg: "\<And>out. stream_command err lw (Suc k) (CHR ''f'') xs out = Inr (xs, out @ sentinel_of n)"
    using stream_page_again [OF assms, of k] by (simp add: stream_command_def)
  let ?S = "sentinel_of n"
  show "stream_commands err lw (Suc k) (CHR ''f'') (replicate m (CHR ''f'')) xs out =
           Inr (False, xs, out @ concat (replicate (Suc m) ?S))"
  proof (induction m arbitrary: out)
    case 0
    show ?case using pg [of out] by simp
  next
    case (Suc m)
    show ?case
      using pg [of out] Suc.IH [of "out @ ?S"]
      by (simp del: replicate.simps
          add: replicate_Suc [of "Suc m"] replicate_Suc [of m "CHR ''f''"])
  qed
  show "stream_commands err lw (Suc k) (CHR ''f'') (replicate m (CHR ''f'') @ [CHR ''q'']) xs out =
           Inr (True, xs, out @ concat (replicate (Suc m) ?S))"
  proof (induction m arbitrary: out)
    case 0
    show ?case using pg [of out] by simp
  next
    case (Suc m)
    show ?case
      using pg [of out] Suc.IH [of "out @ ?S"]
      by (simp del: replicate.simps
          add: replicate_Suc [of "Suc m"] replicate_Suc [of m "CHR ''f''"])
  qed
qed

lemma line_seen_value: "line_seen r = Inr (n, line, xs) \<Longrightarrow> \<exists>t. r = Inr (n, line, t) \<and> visible t = xs"
  by (cases r) (auto simp: line_seen_def)

lemma page_seen_value:
  "page_seen r = Inr (st, xs, out) \<Longrightarrow> \<exists>t. r = Inr (st, t) \<and> visible t = xs \<and> stdout t = out"
  by (cases r) (auto simp: page_seen_def)

text \<open>
  Claim C4, as the code has it. \<^verbatim>\<open>main\<close> does not look at what \<^verbatim>\<open>display_page\<close>
  returns and has no state for the end: once \<^verbatim>\<open>display_page\<close> has returned \<open>0\<close> (the
  source at its end, or failing for good), \<^verbatim>\<open>fetch_next_line\<close> returns a value
  \<open>m \<le> 0\<close> (\<open>0\<close> with a source that does not fail), and every further \<^verbatim>\<open>f\<close> calls
  \<^verbatim>\<open>display_page\<close> again, which writes the sentinel of that value again and nothing else,
  consuming nothing: the end-of-input sentinel for \<open>0\<close>, the error sentinel for \<open>-1\<close>.
  The loop goes on until a \<^verbatim>\<open>q\<close> is read. After \<open>n\<close> more \<^verbatim>\<open>f\<close> keys the output has
  grown by \<open>n + 1\<close> sentinels (one for the \<^verbatim>\<open>f\<close> that started it).
\<close>

theorem next_page_after_end:
  assumes "renders bsz s0 err xs out" "lw < int bsz" "0 < psz"
    and "display_page bsz lw psz s0 = Inr (0, s)"
  shows "\<exists>m line t. fetch_next_line bsz lw s = Inr (m, line, t) \<and> m \<le> 0 \<and> (\<not> err \<longrightarrow> m = 0) \<and>
           run_seen (command_loop bsz lw psz (CHR ''f'') (replicate n (CHR ''f'')) s) =
             Inr (False, visible s, stdout s @ concat (replicate (Suc n) (sentinel_of m))) \<and>
           run_seen (command_loop bsz lw psz (CHR ''f'') (replicate n (CHR ''f'') @ [CHR ''q'']) s) =
             Inr (True, visible s, stdout s @ concat (replicate (Suc n) (sentinel_of m)))"
proof -
  obtain k where k: "psz = Suc k"
    using assms(3) by (cases psz) simp_all
  note ds = display_page_stream [OF assms(1,2), of psz]
  have sp: "stream_page err psz lw xs out = Inr (0, visible s, stdout s)"
    using ds(1) assms(4) by (simp add: page_seen_def)
  note rs = ds(2) [OF assms(4)]
  from stream_page_end [OF sp]
  obtain m line where sl: "stream_line err lw (visible s) = Inr (m, line, visible s)"
    and m: "m \<le> 0" "\<not> err \<longrightarrow> m = 0"
    by blast
  have "line_seen (fetch_next_line bsz lw s) = Inr (m, line, visible s)"
    using fetch_next_line_stream(1) [OF rs assms(2)] sl by simp
  then obtain t where fl: "fetch_next_line bsz lw s = Inr (m, line, t)"
    using line_seen_value by blast
  note sc = stream_commands_after_end [OF sl m(1), of k n "stdout s"]
  have c1: "run_seen (command_loop bsz lw psz (CHR ''f'') (replicate n (CHR ''f'')) s) =
             Inr (False, visible s, stdout s @ concat (replicate (Suc n) (sentinel_of m)))"
    using conjunct1 [OF command_loop_stream [OF rs assms(2), of psz "CHR ''f''" "replicate n (CHR ''f'')"]]
      sc(1) unfolding k by simp
  have c2: "run_seen (command_loop bsz lw psz (CHR ''f'') (replicate n (CHR ''f'') @ [CHR ''q'']) s) =
             Inr (True, visible s, stdout s @ concat (replicate (Suc n) (sentinel_of m)))"
    using conjunct1 [OF command_loop_stream [OF rs assms(2), of psz "CHR ''f''"
          "replicate n (CHR ''f'') @ [CHR ''q'']"]]
      sc(2) unfolding k by simp
  show ?thesis
    using fl m c1 c2 by blast
qed

theorem next_page_after_end_witness:
  "run_seen (command_loop BUFFER_SIZE LINE_WIDTH PAGE_SIZE (CHR ''f'') (replicate 2 (CHR ''f''))
         (snd (projr (display_page BUFFER_SIZE LINE_WIDTH PAGE_SIZE
                 (snd (refill_buffer BUFFER_SIZE 0 (initial_state BUFFER_SIZE short_source))))))) =
     Inr (False, [], ''hi'' @ [LF] @ eof_sentinel @ eof_sentinel @ eof_sentinel @ eof_sentinel) \<and>
   run_seen (command_loop BUFFER_SIZE LINE_WIDTH PAGE_SIZE (CHR ''f'') (replicate 2 (CHR ''f'') @ [CHR ''q''])
         (snd (projr (display_page BUFFER_SIZE LINE_WIDTH PAGE_SIZE
                 (snd (refill_buffer BUFFER_SIZE 0 (initial_state BUFFER_SIZE short_source))))))) =
     Inr (True, [], ''hi'' @ [LF] @ eof_sentinel @ eof_sentinel @ eof_sentinel @ eof_sentinel) \<and>
   run_seen (command_loop BUFFER_SIZE LINE_WIDTH PAGE_SIZE (CHR ''f'') (replicate 2 (CHR ''f'') @ [CHR ''q''])
         (snd (projr (display_page BUFFER_SIZE LINE_WIDTH PAGE_SIZE
                 (snd (refill_buffer BUFFER_SIZE 0 (initial_state BUFFER_SIZE failed_source))))))) =
     Inr (True, [], error_sentinel @ error_sentinel @ error_sentinel @ error_sentinel)"
proof -
  let ?s0 = "snd (refill_buffer BUFFER_SIZE 0 (initial_state BUFFER_SIZE short_source))"
  let ?d = "display_page BUFFER_SIZE LINE_WIDTH PAGE_SIZE ?s0"
  let ?t0 = "snd (refill_buffer BUFFER_SIZE 0 (initial_state BUFFER_SIZE failed_source))"
  let ?e = "display_page BUFFER_SIZE LINE_WIDTH PAGE_SIZE ?t0"
  have b: "LINE_WIDTH < int BUFFER_SIZE" "0 < PAGE_SIZE"
    by (simp_all add: LINE_WIDTH_def BUFFER_SIZE_def PAGE_SIZE_def)
  have r: "renders BUFFER_SIZE ?s0 False (pending short_source) []"
    using refill_renders [of "initial_state BUFFER_SIZE short_source" BUFFER_SIZE False]
    by (simp add: initial_state_def short_source_def)
  have p: "stream_page False PAGE_SIZE LINE_WIDTH (pending short_source) [] =
             Inr (0, [], ''hi'' @ [LF] @ eof_sentinel)"
    unfolding LINE_WIDTH_def PAGE_SIZE_def short_source_def by code_simp
  have "page_seen ?d = Inr (0, [], ''hi'' @ [LF] @ eof_sentinel)"
    using display_page_stream(1) [OF r b(1), of PAGE_SIZE] p by simp
  then obtain s where d: "?d = Inr (0, s)" and vis: "visible s = []"
    and out: "stdout s = ''hi'' @ [LF] @ eof_sentinel"
    using page_seen_value by blast
  have r': "renders BUFFER_SIZE ?t0 True [] []"
    using refill_renders [of "initial_state BUFFER_SIZE failed_source" BUFFER_SIZE True]
    by (simp add: initial_state_def failed_source_def)
  have p': "stream_page True PAGE_SIZE LINE_WIDTH [] [] = Inr (0, [], error_sentinel)"
    unfolding LINE_WIDTH_def PAGE_SIZE_def by code_simp
  have "page_seen ?e = Inr (0, [], error_sentinel)"
    using display_page_stream(1) [OF r' b(1), of PAGE_SIZE] p' by simp
  then obtain t where e: "?e = Inr (0, t)" and vis': "visible t = []"
    and out': "stdout t = error_sentinel"
    using page_seen_value by blast
  note rt = display_page_stream(2) [OF r' b(1) e]
  have l': "stream_line True LINE_WIDTH [] = Inr (- 1, [], [])"
    unfolding LINE_WIDTH_def by code_simp
  have n': "line_seen (fetch_next_line BUFFER_SIZE LINE_WIDTH t) = Inr (- 1, [], [])"
    using fetch_next_line_stream(1) [OF rt b(1)] l' unfolding vis' by simp
  from next_page_after_end [OF r b d, of 2]
  have A: "run_seen (command_loop BUFFER_SIZE LINE_WIDTH PAGE_SIZE (CHR ''f'') (replicate 2 (CHR ''f'')) s) =
             Inr (False, [], ''hi'' @ [LF] @ eof_sentinel @ eof_sentinel @ eof_sentinel @ eof_sentinel)"
    and B: "run_seen (command_loop BUFFER_SIZE LINE_WIDTH PAGE_SIZE (CHR ''f'') (replicate 2 (CHR ''f'') @ [CHR ''q'']) s) =
             Inr (True, [], ''hi'' @ [LF] @ eof_sentinel @ eof_sentinel @ eof_sentinel @ eof_sentinel)"
    using vis out by (auto simp: eval_nat_numeral sentinel_of_def)
  from next_page_after_end [OF r' b e, of 2] n'
  have C: "run_seen (command_loop BUFFER_SIZE LINE_WIDTH PAGE_SIZE (CHR ''f'') (replicate 2 (CHR ''f'') @ [CHR ''q'']) t) =
             Inr (True, [], error_sentinel @ error_sentinel @ error_sentinel @ error_sentinel)"
    using vis' out' by (auto simp: eval_nat_numeral sentinel_of_def line_seen_def)
  show ?thesis
    unfolding d e using A B C by simp
qed

text \<open>
  Claim C4 as stated makes a next-page command after the end a no-op and ends the session.
  For a file of one line, the first page ends the stream; a further \<^verbatim>\<open>f\<close> writes the
  sentinel a second time, and the program is still waiting for keys.
\<close>

theorem next_page_after_end_counterexample:
  "outcome (mypager ''t'' short_source []) =
     Inr (False, [], ''Opening file t...'' @ [LF] @ ''hi'' @ [LF] @ eof_sentinel) \<and>
   outcome (mypager ''t'' short_source ''f'') =
     Inr (False, [], ''Opening file t...'' @ [LF] @ ''hi'' @ [LF] @ eof_sentinel @ eof_sentinel) \<and>
   outcome (mypager ''t'' short_source ''f'') \<noteq> outcome (mypager ''t'' short_source [])"
proof -
  have s0: "stream_main False LINE_WIDTH PAGE_SIZE ''t'' (pending short_source) [] =
    Inr (False, [], ''Opening file t...'' @ [LF] @ ''hi'' @ [LF] @ eof_sentinel)"
    unfolding LINE_WIDTH_def PAGE_SIZE_def short_source_def by code_simp
  have s1: "stream_main False LINE_WIDTH PAGE_SIZE ''t'' (pending short_source) ''f'' =
    Inr (False, [], ''Opening file t...'' @ [LF] @ ''hi'' @ [LF] @ eof_sentinel @ eof_sentinel)"
    unfolding LINE_WIDTH_def PAGE_SIZE_def short_source_def by code_simp
  have nf: "fail_at short_source = None"
    by (simp add: short_source_def)
  have m0: "outcome (mypager ''t'' short_source []) =
     Inr (False, [], ''Opening file t...'' @ [LF] @ ''hi'' @ [LF] @ eof_sentinel)"
    using s0 mypager_stream [OF nf, of "''t''" "[]"] by simp
  have m1: "outcome (mypager ''t'' short_source ''f'') =
     Inr (False, [], ''Opening file t...'' @ [LF] @ ''hi'' @ [LF] @ eof_sentinel @ eof_sentinel)"
    using s1 mypager_stream [OF nf, of "''t''" "''f''"] by simp
  show ?thesis
    unfolding m0 m1 by (simp add: eof_sentinel_def)
qed

end
